theory Spec2Isabelle
  imports Main "HOL-Library.Sublist"
begin

section \<open>Trace collector: spans and the in-memory trace store\<close>

text \<open>
  Source: \<^verbatim>\<open>promptflow/_telemetry/tracer_manager.py\<close>.  Python exceptions are values of
  \<open>py_error\<close>; a function that may raise returns \<open>py_error + 'a\<close> with \<open>Inl\<close> the exception.
\<close>

datatype py_error = KeyError | ValueError | RecursionError

text \<open>
  A span as the exporters see it (an OpenTelemetry \<^verbatim>\<open>ReadableSpan\<close>): \<^verbatim>\<open>span.name\<close>,
  \<^verbatim>\<open>span.context\<close> (trace id and span id), \<^verbatim>\<open>span.parent\<close> (a span context, or
  \<^verbatim>\<open>None\<close> for a root), \<^verbatim>\<open>span.start_time\<close> and \<^verbatim>\<open>span.attributes\<close>, a dictionary from
  strings to attribute values.  The dictionary is an association list read with \<open>map_of\<close>,
  so that a key can be absent and spans can be compared.  An attribute value is a
  string, an integer or a boolean (the other kinds OpenTelemetry allows, floats and
  sequences, equal no string either).  Span and trace ids are non-negative integers.
  Field \<open>ctx\<close> stands for \<^verbatim>\<open>context\<close>, which is a keyword of the theory language.
\<close>

datatype attr_value = AttrStr string | AttrInt int | AttrBool bool

record span_context =
  trace_id :: nat
  span_id :: nat

record span =
  name :: string
  ctx :: span_context
  parent :: "span_context option"
  start_time :: nat
  attributes :: "(string \<times> attr_value) list"

text \<open>\<^verbatim>\<open>d[k]\<close> on a dictionary: \<^verbatim>\<open>KeyError\<close> when the key is absent.\<close>

definition dict_get :: "('k \<times> 'v) list \<Rightarrow> 'k \<Rightarrow> py_error + 'v" where
  "dict_get d k = (case map_of d k of None \<Rightarrow> Inl KeyError | Some v \<Rightarrow> Inr v)"

text \<open>
  \<^verbatim>\<open>class MemoryTraceStore\<close>: the only field is the list \<^verbatim>\<open>_spans\<close>.
\<close>

record memory_trace_store =
  spans :: "span list"



text \<open>
  \<^verbatim>\<open>[span for span in self._spans if span.attributes["root_run_id"] == run_id]\<close>:
  the comprehension reads the attribute of every span in turn and raises at the first span
  that has no such key.  \<^verbatim>\<open>run_id\<close> is a \<^verbatim>\<open>str\<close>, and a Python string equals no integer
  and no boolean, so only a string attribute can match.
\<close>

fun select_run :: "span list \<Rightarrow> string \<Rightarrow> py_error + span list" where
  "select_run [] run_id = Inr []"
| "select_run (s # ss) run_id =
     (case dict_get (attributes s) ''root_run_id'' of
        Inl e \<Rightarrow> Inl e
      | Inr v \<Rightarrow>
         (case select_run ss run_id of
            Inl e \<Rightarrow> Inl e
          | Inr r \<Rightarrow> Inr (if v = AttrStr run_id then s # r else r)))"

definition get_spans_from_run_id :: "memory_trace_store \<Rightarrow> string \<Rightarrow> py_error + span list" where
  "get_spans_from_run_id st run_id = select_run (spans st) run_id"

text \<open>
  \<^verbatim>\<open>list.remove(x)\<close> deletes the first element equal to \<open>x\<close> and raises \<^verbatim>\<open>ValueError\<close>
  when there is none.  Python compares spans by identity; the model compares them by
  value, which removes an element of the same value at the same or an earlier position.
\<close>

fun list_remove :: "'a \<Rightarrow> 'a list \<Rightarrow> py_error + 'a list" where
  "list_remove x [] = Inl ValueError"
| "list_remove x (y # ys) =
     (if y = x then Inr ys
      else (case list_remove x ys of Inl e \<Rightarrow> Inl e | Inr r \<Rightarrow> Inr (y # r)))"

text \<open>
  \<^verbatim>\<open>for span in spans: self._spans.remove(span)\<close>: the list is changed in place, so a
  failing \<^verbatim>\<open>remove\<close> leaves the removals made before it; the result is the exception, if
  any, and the list as it stands.
\<close>

fun remove_each :: "span list \<Rightarrow> span list \<Rightarrow> py_error option \<times> span list" where
  "remove_each [] cur = (None, cur)"
| "remove_each (s # ss) cur =
     (case list_remove s cur of
        Inl e \<Rightarrow> (Some e, cur)
      | Inr cur' \<Rightarrow> remove_each ss cur')"

definition pop_spans_from_run_id ::
  "memory_trace_store \<Rightarrow> string \<Rightarrow> (py_error + span list) \<times> memory_trace_store" where
  "pop_spans_from_run_id st run_id =
     (case get_spans_from_run_id st run_id of
        Inl e \<Rightarrow> (Inl e, st)
      | Inr sel \<Rightarrow>
         (case remove_each sel (spans st) of
            (Some e, rest) \<Rightarrow> (Inl e, st\<lparr>spans := rest\<rparr>)
          | (None, rest) \<Rightarrow> (Inr sel, st\<lparr>spans := rest\<rparr>)))"

text \<open>
  \<^verbatim>\<open>pop_spans_from_run_id\<close> takes no lock, so its two parts, the read of line 33 and the
  loop of lines 34 to 36, can be separated by another thread's call.  \<open>remove_selected\<close> is
  the loop and the \<^verbatim>\<open>return\<close>, given the list the read produced.  \<open>pops_interleaved\<close> is
  two calls for one run id on one store in the order in which both read before either
  removes, the first caller's loop running first: what each call returns or raises, and
  the store afterwards.
\<close>

definition remove_selected ::
  "memory_trace_store \<Rightarrow> span list \<Rightarrow> (py_error + span list) \<times> memory_trace_store" where
  "remove_selected st sel =
     (case remove_each sel (spans st) of
        (Some e, rest) \<Rightarrow> (Inl e, st\<lparr>spans := rest\<rparr>)
      | (None, rest) \<Rightarrow> (Inr sel, st\<lparr>spans := rest\<rparr>))"


definition clear :: "memory_trace_store \<Rightarrow> memory_trace_store" where
  "clear st = st\<lparr>spans := []\<rparr>"

text \<open>The spans of a run: those whose \<^verbatim>\<open>root_run_id\<close> attribute is the string \<open>run_id\<close>.\<close>

definition of_run :: "string \<Rightarrow> span \<Rightarrow> bool" where
  "of_run run_id s \<longleftrightarrow> map_of (attributes s) ''root_run_id'' = Some (AttrStr run_id)"

definition has_root_run_id :: "span \<Rightarrow> bool" where
  "has_root_run_id s \<longleftrightarrow> map_of (attributes s) ''root_run_id'' \<noteq> None"


text \<open>
  Example spans: a root and its child in run \<open>run1\<close>, a root of run \<open>run2\<close>, and a span
  whose attributes hold no \<^verbatim>\<open>root_run_id\<close>.
\<close>

definition root_span :: span where
  "root_span = \<lparr>name = ''root'', ctx = \<lparr>trace_id = 7, span_id = 1\<rparr>, parent = None,
     start_time = 0, attributes = [(''root_run_id'', AttrStr ''run1'')]\<rparr>"

definition child_span :: span where
  "child_span = \<lparr>name = ''child'', ctx = \<lparr>trace_id = 7, span_id = 2\<rparr>,
     parent = Some \<lparr>trace_id = 7, span_id = 1\<rparr>,
     start_time = 1, attributes = [(''root_run_id'', AttrStr ''run1'')]\<rparr>"

definition other_span :: span where
  "other_span = \<lparr>name = ''other'', ctx = \<lparr>trace_id = 8, span_id = 3\<rparr>, parent = None,
     start_time = 2, attributes = [(''root_run_id'', AttrStr ''run2'')]\<rparr>"

definition bare_span :: span where
  "bare_span = \<lparr>name = ''bare'', ctx = \<lparr>trace_id = 9, span_id = 4\<rparr>, parent = None,
     start_time = 3, attributes = [(''kind'', AttrInt 1)]\<rparr>"

section \<open>Trace collector: the tree console exporter\<close>

text \<open>
  \<^verbatim>\<open>class TreeConsoleSpanExporter\<close>: \<^verbatim>\<open>span_tree\<close> maps a parent span id (or \<^verbatim>\<open>None\<close>) to
  the list of spans filed under it, \<^verbatim>\<open>span_start_times\<close> maps a span id to a start time.
\<close>

record tree_console_span_exporter =
  span_tree :: "nat option \<rightharpoonup> span list"
  span_start_times :: "nat \<rightharpoonup> nat"

definition tree_console_span_exporter_init :: tree_console_span_exporter where
  "tree_console_span_exporter_init = \<lparr>span_tree = Map.empty, span_start_times = Map.empty\<rparr>"

text \<open>\<^verbatim>\<open>parent_id = span.parent.span_id if span.parent else None\<close>\<close>

definition parent_id :: "span \<Rightarrow> nat option" where
  "parent_id s = (case parent s of Some p \<Rightarrow> Some (span_id p) | None \<Rightarrow> None)"

text \<open>
  The body of the loop of \<^verbatim>\<open>export\<close>, for one span: record its start time, create the
  list of its parent id when the key is new, append the span to that list.
\<close>

definition file_span :: "tree_console_span_exporter \<Rightarrow> span \<Rightarrow> tree_console_span_exporter" where
  "file_span ex s =
     (let pid = parent_id s;
          filed = (case span_tree ex pid of None \<Rightarrow> [] | Some ss \<Rightarrow> ss)
      in ex\<lparr>span_start_times := (span_start_times ex)(span_id (ctx s) \<mapsto> start_time s),
            span_tree := (span_tree ex)(pid \<mapsto> filed @ [s])\<rparr>)"

text \<open>\<^verbatim>\<open>str\<close> of a non-negative integer: its decimal digits.\<close>

fun str_nat :: "nat \<Rightarrow> string" where
  "str_nat n =
     (if n < 10 then [''0123456789'' ! n]
      else str_nat (n div 10) @ [''0123456789'' ! (n mod 10)])"

text \<open>
  The line \<^verbatim>\<open>_print_tree\<close> prints for a span at a level:
  \<^verbatim>\<open>f"{indent}- {' '.join(str(section) for section in sections_to_print)}"\<close> with
  \<^verbatim>\<open>indent = "  " * level\<close> and the sections \<^verbatim>\<open>span.name\<close>, \<^verbatim>\<open>"\ttrace_id:"\<close>, the trace
  id, \<^verbatim>\<open>"span_id:"\<close>, the span id.
\<close>

definition format_line :: "nat \<Rightarrow> span \<Rightarrow> string" where
  "format_line level s =
     concat (replicate level ''  '') @ ''- '' @ name s @ '' '' @ (CHR 0x09 # ''trace_id:'')
       @ '' '' @ str_nat (trace_id (ctx s)) @ '' '' @ ''span_id:'' @ '' ''
       @ str_nat (span_id (ctx s))"

text \<open>
  \<^verbatim>\<open>_print_tree\<close> recurses once per level of the tree and nothing bounds that depth but
  the interpreter's recursion limit, so the model carries \<open>depth\<close>, the number of levels
  the limit still lets print.  The result is the list of printed entries (level and span,
  in printing order) and whether the call returned; \<open>False\<close> is \<^verbatim>\<open>RecursionError\<close>,
  raised where a span would have to be printed deeper, and what was printed before it
  stays printed.

  \<open>for_spans\<close> is the \<^verbatim>\<open>for span in self.span_tree[parent_id]\<close> loop, given the
  recursive call as \<open>rec\<close>: print the span, then its subtree one level deeper, and stop at
  the first call that raises.
\<close>

fun for_spans ::
  "(nat option \<Rightarrow> nat \<Rightarrow> (nat \<times> span) list \<times> bool) \<Rightarrow> nat \<Rightarrow> span list
     \<Rightarrow> (nat \<times> span) list \<times> bool" where
  "for_spans rec level [] = ([], True)"
| "for_spans rec level (s # ss) =
     (case rec (Some (span_id (ctx s))) (level + 1) of
        (sub, False) \<Rightarrow> ((level, s) # sub, False)
      | (sub, True) \<Rightarrow>
         (case for_spans rec level ss of (rest, ok) \<Rightarrow> ((level, s) # sub @ rest, ok)))"

primrec print_tree ::
  "nat \<Rightarrow> (nat option \<rightharpoonup> span list) \<Rightarrow> nat option \<Rightarrow> nat \<Rightarrow> (nat \<times> span) list \<times> bool" where
  "print_tree 0 tree pid level =
     (case tree pid of
        None \<Rightarrow> ([], True)
      | Some ss \<Rightarrow> ([], ss = []))"
| "print_tree (Suc depth) tree pid level =
     (case tree pid of
        None \<Rightarrow> ([], True)
      | Some ss \<Rightarrow> for_spans (print_tree depth tree) level ss)"

text \<open>
  \<^verbatim>\<open>export\<close>: file every span of the batch, then print the whole tree from the \<^verbatim>\<open>None\<close>
  key at level 0.  The result is the printed lines, whether the call returned, and the
  exporter afterwards (the spans are filed before anything is printed, so they stay filed
  when printing raises).
\<close>

definition export ::
  "nat \<Rightarrow> tree_console_span_exporter \<Rightarrow> span list
     \<Rightarrow> (string list \<times> bool) \<times> tree_console_span_exporter" where
  "export depth ex batch =
     (let ex' = foldl file_span ex batch;
          (printed, ok) = print_tree depth (span_tree ex') None 0
      in ((map (\<lambda>(level, s). format_line level s) printed, ok), ex'))"

text \<open>
  An exporter in use: a new exporter after \<^verbatim>\<open>export\<close> was called on each of a sequence of
  batches.
\<close>

definition exporter_after :: "nat \<Rightarrow> span list list \<Rightarrow> tree_console_span_exporter" where
  "exporter_after depth batches =
     foldl (\<lambda>ex batch. snd (export depth ex batch)) tree_console_span_exporter_init batches"

text \<open>The spans filed under a key: none when the key is absent.\<close>

definition children_of :: "(nat option \<rightharpoonup> span list) \<Rightarrow> nat option \<Rightarrow> span list" where
  "children_of tree k = (case tree k of None \<Rightarrow> [] | Some ss \<Rightarrow> ss)"

text \<open>
  The tree an exporter builds files every span under its own parent id; \<^verbatim>\<open>__init__\<close>
  starts from the empty tree and \<^verbatim>\<open>export\<close> is the only writer.
\<close>

definition filed_by_parent :: "(nat option \<rightharpoonup> span list) \<Rightarrow> bool" where
  "filed_by_parent tree \<longleftrightarrow> (\<forall>k ss. tree k = Some ss \<longrightarrow> (\<forall>s\<in>set ss. parent_id s = k))"

text \<open>
  An auxiliary reading of a list of printed entries, used in the proofs: every entry is
  either a span filed under \<open>pid\<close>, printed at \<open>level\<close>, or a deeper one that comes after an
  entry one level higher whose span id is its parent id.
\<close>

definition printed_under :: "nat option \<Rightarrow> nat \<Rightarrow> (nat \<times> span) list \<Rightarrow> bool" where
  "printed_under pid level out \<longleftrightarrow>
     (\<forall>pre e post. out = pre @ e # post \<longrightarrow>
        (fst e = level \<and> parent_id (snd e) = pid)
        \<or> (level < fst e \<and> (\<exists>e'\<in>set pre. Suc (fst e') = fst e
              \<and> parent_id (snd e) = Some (span_id (ctx (snd e'))))))"

text \<open>
  A second auxiliary reading, used in the proofs: for every printed entry, the entries
  one level deeper among those that follow it while the level stays deeper (its block)
  are exactly the spans filed under its span id, in filing order.
\<close>

definition printed_blocks :: "(nat option \<rightharpoonup> span list) \<Rightarrow> (nat \<times> span) list \<Rightarrow> bool" where
  "printed_blocks tree out \<longleftrightarrow>
     (\<forall>pre e post. out = pre @ e # post \<longrightarrow>
        map snd (filter (\<lambda>x. fst x = Suc (fst e)) (takeWhile (\<lambda>x. fst e < fst x) post))
          = children_of tree (Some (span_id (ctx (snd e)))))"

text \<open>A grandchild for the examples: a span of run \<open>run1\<close> whose parent is \<open>child_span\<close>.\<close>

definition grandchild_span :: span where
  "grandchild_span = \<lparr>name = ''grandchild'', ctx = \<lparr>trace_id = 7, span_id = 5\<rparr>,
     parent = Some \<lparr>trace_id = 7, span_id = 2\<rparr>,
     start_time = 2, attributes = [(''root_run_id'', AttrStr ''run1'')]\<rparr>"

text \<open>
  A third auxiliary reading, used in the proofs: from one printed entry to the next the
  level rises by at most one.
\<close>

fun printed_steps :: "(nat \<times> span) list \<Rightarrow> bool" where
  "printed_steps [] = True"
| "printed_steps [a] = True"
| "printed_steps (a # b # rest) = (fst b \<le> Suc (fst a) \<and> printed_steps (b # rest))"

section \<open>The process-wide tracer\<close>

text \<open>
  \<^verbatim>\<open>get_tracer\<close> reads and writes the module global \<^verbatim>\<open>_tracer_instance\<close> and calls into
  OpenTelemetry: it constructs a \<^verbatim>\<open>TracerProvider\<close>, adds three span processors to it,
  registers it with \<^verbatim>\<open>trace.set_tracer_provider\<close> and asks it for a tracer.  The model
  keeps what these calls leave behind: the providers constructed so far (a provider is
  named by its position in that list), the providers registered so far, and the global.
  A tracer is the name it was asked for and the provider it came from.  The body runs
  under \<^verbatim>\<open>_tracer_lock\<close>; calls are taken one after another here.
\<close>

datatype span_exporter = MdcExporter | TreeConsoleSpanExporter | MemoryExporter

datatype span_processor = BatchSpanProcessor span_exporter | SimpleSpanProcessor span_exporter

record tracer_provider =
  service_name :: string
  span_processors :: "span_processor list"

record tracer =
  tracer_name :: string
  provider :: nat

record tracer_globals =
  tracer_instance :: "tracer option"
  providers :: "tracer_provider list"
  registered :: "nat list"

text \<open>The module as imported: \<^verbatim>\<open>_tracer_instance = None\<close>, nothing constructed.\<close>

definition tracer_globals_init :: tracer_globals where
  "tracer_globals_init = \<lparr>tracer_instance = None, providers = [], registered = []\<rparr>"

definition get_tracer :: "string \<Rightarrow> tracer_globals \<Rightarrow> tracer \<times> tracer_globals" where
  "get_tracer nm g =
     (case tracer_instance g of
        None \<Rightarrow>
          (let pid = length (providers g);
               p = \<lparr>service_name = ''promptflow'',
                    span_processors = [BatchSpanProcessor MdcExporter,
                                       SimpleSpanProcessor TreeConsoleSpanExporter,
                                       SimpleSpanProcessor MemoryExporter]\<rparr>;
               t = \<lparr>tracer_name = nm, provider = pid\<rparr>
           in (t, g\<lparr>tracer_instance := Some t,
                    providers := providers g @ [p],
                    registered := registered g @ [pid]\<rparr>))
      | Some t \<Rightarrow> (t, g))"

text \<open>A sequence of calls, one per name: the tracers returned and the globals afterwards.\<close>

fun get_tracers :: "string list \<Rightarrow> tracer_globals \<Rightarrow> tracer list \<times> tracer_globals" where
  "get_tracers [] g = ([], g)"
| "get_tracers (nm # nms) g =
     (case get_tracer nm g of
        (t, g') \<Rightarrow> (case get_tracers nms g' of (ts, g'') \<Rightarrow> (t # ts, g'')))"

section \<open>The seed question tool\<close>

text \<open>
  Source: \<^verbatim>\<open>generate_test_data_flow/generate_question.py\<close>.  \<^verbatim>\<open>llm_call\<close> is imported from a
  module that is not part of these sources, so it is a parameter: given the connection,
  the model name, the prompt, the temperature, \<^verbatim>\<open>max_tokens\<close> and the state of the world
  outside the program, it gives its result (\<open>Inl\<close> an exception it raises) and the world
  after the call.  Temperature is passed through untouched; its type is left open.
  \<^verbatim>\<open>context\<close> is a string or \<^verbatim>\<open>None\<close>, and \<^verbatim>\<open>not context\<close> holds for \<^verbatim>\<open>None\<close> and for the
  empty string.  The \<^verbatim>\<open>@tool\<close> decorator registers the function as a flow tool; the
  model is the function it decorates.
\<close>

definition generate_seed_question ::
  "('c \<Rightarrow> string \<Rightarrow> string \<Rightarrow> 't \<Rightarrow> int \<Rightarrow> 'w \<Rightarrow> ('e + string) \<times> 'w)
     \<Rightarrow> 'c \<Rightarrow> string \<Rightarrow> string \<Rightarrow> string option \<Rightarrow> 't \<Rightarrow> int \<Rightarrow> 'w \<Rightarrow> ('e + string) \<times> 'w" where
  "generate_seed_question llm_call connection model_or_deployment_name generate_question_prompt
       context temperature max_tokens w =
     (if (case context of None \<Rightarrow> True | Some c \<Rightarrow> c = [])
      then (Inr [], w)
      else llm_call connection model_or_deployment_name generate_question_prompt
             temperature max_tokens w)"

text \<open>
  An \<^verbatim>\<open>llm_call\<close> to run examples with: it answers with the model name and the prompt and
  counts its invocations in the world.
\<close>

definition counting_llm ::
  "unit \<Rightarrow> string \<Rightarrow> string \<Rightarrow> nat \<Rightarrow> int \<Rightarrow> nat \<Rightarrow> (unit + string) \<times> nat" where
  "counting_llm connection model prompt temperature max_tokens calls =
     (Inr (model @ '': '' @ prompt), Suc calls)"

section \<open>The experiment controller\<close>

text \<open>
  The sources hold the tests of the experiment controller
  (\<^verbatim>\<open>tests/sdk_cli_test/e2etests/test_experiment.py\<close>), which call
  \<^verbatim>\<open>client._experiments.start\<close>, \<^verbatim>\<open>stop\<close> and \<^verbatim>\<open>get\<close> and read \<^verbatim>\<open>exp.status\<close> and
  \<^verbatim>\<open>exp.node_runs\<close>; the controller and the scheduler themselves are not among them.  The
  definitions of this section follow the specification's text.
\<close>

text \<open>
  Modelled from the spec: the experiment statuses (class \<^verbatim>\<open>ExperimentStatus\<close>, missing
  from the sources), "one of NotStarted, Queuing, InProgress, Completed, Canceled, Failed,
  Terminated".
\<close>

datatype experiment_status =
  NotStarted | Queuing | InProgress | Completed | Canceled | Failed | Terminated

text \<open>
  Modelled from the spec: the status as a message shows it; the constants of the missing
  class \<^verbatim>\<open>ExperimentStatus\<close> are taken to be the strings the spec names them by.
\<close>

fun status_name :: "experiment_status \<Rightarrow> string" where
  "status_name NotStarted = ''NotStarted''"
| "status_name Queuing = ''Queuing''"
| "status_name InProgress = ''InProgress''"
| "status_name Completed = ''Completed''"
| "status_name Canceled = ''Canceled''"
| "status_name Failed = ''Failed''"
| "status_name Terminated = ''Terminated''"

text \<open>
  Modelled from the spec: the statuses of a node run (class \<^verbatim>\<open>RunStatus\<close>, missing from
  the sources), "Queued, Running, Completed, Failed, Canceled"; a run is "terminal once
  the underlying flow-run or command-run finishes or is canceled".
\<close>

datatype run_status = RunQueued | RunRunning | RunCompleted | RunFailed | RunCanceled

text \<open>
  Modelled from the spec: which statuses of the missing class \<^verbatim>\<open>RunStatus\<close> are terminal,
  the run having finished (completed or failed) or been canceled.
\<close>

fun run_terminal :: "run_status \<Rightarrow> bool" where
  "run_terminal RunQueued = False"
| "run_terminal RunRunning = False"
| "run_terminal RunCompleted = True"
| "run_terminal RunFailed = True"
| "run_terminal RunCanceled = True"

text \<open>
  Modelled from the spec: a \<^verbatim>\<open>NodeRun\<close>, with its generated run name and its status; the
  entity class is missing from the sources.
\<close>

record node_run =
  run_name :: string
  run_status :: run_status

text \<open>
  Modelled from the spec: an \<^verbatim>\<open>Experiment\<close>, with its name, the names of its nodes, its
  status, and \<^verbatim>\<open>node_runs\<close>, "mapping from node name to an ordered sequence of run
  records" (a node without runs has the empty sequence); the entity class is missing from
  the sources.  The type is called \<open>experiment_record\<close> because \<open>experiment\<close> is a keyword of
  the theory language.
\<close>

record experiment_record =
  exp_name :: string
  nodes :: "string list"
  status :: experiment_status
  node_runs :: "string \<Rightarrow> node_run list"

text \<open>
  Modelled from the spec: an experiment as created from a template (\<^verbatim>\<open>from_template\<close> and
  \<^verbatim>\<open>create_or_update\<close>, missing from the sources): not started, "a fresh experiment has
  zero entries before start".
\<close>

definition new_experiment :: "string \<Rightarrow> string list \<Rightarrow> experiment_record" where
  "new_experiment nm ns = \<lparr>exp_name = nm, nodes = ns, status = NotStarted, node_runs = (\<lambda>n. [])\<rparr>"

text \<open>
  Modelled from the spec: the error kind \<^verbatim>\<open>InvalidStateError\<close>, "operation not legal in
  current experiment status", with its message.  (The test catches the exception as the
  class \<^verbatim>\<open>RunOperationError\<close>, whose definition is missing from the sources.)
\<close>

datatype controller_error = InvalidStateError string

text \<open>
  Modelled from the spec: \<^verbatim>\<open>start\<close> of the missing controller; it "fails with an
  InvalidStateError kind ("Experiment X is <status>") if the experiment is already
  Queuing/InProgress; otherwise transitions to Queuing, hands off to the DAG Scheduler
  asynchronously, and returns immediately with the updated status snapshot".  The result
  is the outcome of the call and the experiment as stored afterwards; the scheduler's
  work is the events below.
\<close>

definition start :: "experiment_record \<Rightarrow> (controller_error + experiment_record) \<times> experiment_record" where
  "start e =
     (if status e = Queuing \<or> status e = InProgress
      then (Inl (InvalidStateError
                  (''Experiment '' @ exp_name e @ '' is '' @ status_name (status e))), e)
      else (Inr (e\<lparr>status := Queuing\<rparr>), e\<lparr>status := Queuing\<rparr>))"

text \<open>
  Modelled from the spec: cancellation of a node run by the missing scheduler, "an
  external stop request transitions in-flight nodes to Canceled ... and lets
  already-completed nodes retain their results"; in flight is every run that is not
  terminal.
\<close>

definition cancel_run :: "node_run \<Rightarrow> node_run" where
  "cancel_run r = (if run_terminal (run_status r) then r else r\<lparr>run_status := RunCanceled\<rparr>)"

text \<open>
  Modelled from the spec: \<^verbatim>\<open>stop\<close> of the missing controller; "stop from
  Queuing/InProgress forces Terminated after canceling the active DAG Scheduler run", and
  it "is a no-op (but not an error) if the experiment is already terminal".  The spec
  says nothing of an experiment that was never started; with no scheduler run to cancel
  it is left as it is.
\<close>

definition stop :: "experiment_record \<Rightarrow> (controller_error + experiment_record) \<times> experiment_record" where
  "stop e =
     (if status e = Queuing \<or> status e = InProgress
      then (let e' = e\<lparr>status := Terminated,
                        node_runs := (\<lambda>n. map cancel_run (node_runs e n))\<rparr>
            in (Inr e', e'))
      else (Inr e, e))"

text \<open>
  Modelled from the spec: the terminal statuses of an experiment, those after which no
  scheduler run is active.
\<close>

fun terminal_status :: "experiment_status \<Rightarrow> bool" where
  "terminal_status Completed = True"
| "terminal_status Canceled = True"
| "terminal_status Failed = True"
| "terminal_status Terminated = True"
| "terminal_status s = False"

text \<open>
  Modelled from the spec: what happens to an experiment, as events.  \<open>Start\<close> and \<open>Stop\<close>
  are the calls of the controller.  The others are the missing scheduler's: it begins
  (\<open>Queuing\<close> to \<open>InProgress\<close>); it dispatches a node, which creates a \<^verbatim>\<open>NodeRun\<close> with a
  generated name ("created when the DAG Scheduler dispatches a node") at the end of the
  node's history; a node reports a new status of its latest run ("nodes report results
  which the Controller folds in"); all nodes are terminal (\<open>InProgress\<close> to \<open>Completed\<close>, or
  to \<open>Failed\<close> when a node failed); the finished experiment becomes \<open>Terminated\<close>.
\<close>

datatype event =
  Start | Stop | SchedulerBegins | Dispatch string string | NodeReports string run_status
  | AllNodesTerminal | Finish

text \<open>
  Modelled from the spec: whether the latest run of every node is terminal ("all nodes
  terminal", as the missing scheduler finds it).
\<close>

definition all_nodes_terminal :: "experiment_record \<Rightarrow> bool" where
  "all_nodes_terminal e \<longleftrightarrow>
     list_all (\<lambda>n. node_runs e n \<noteq> [] \<and> run_terminal (run_status (last (node_runs e n))))
       (nodes e)"

text \<open>
  Modelled from the spec: whether the latest run of some node failed (the status the
  missing scheduler aggregates: \<open>Failed\<close> then, \<open>Completed\<close> otherwise).
\<close>

definition some_node_failed :: "experiment_record \<Rightarrow> bool" where
  "some_node_failed e \<longleftrightarrow>
     list_ex (\<lambda>n. node_runs e n \<noteq> [] \<and> run_status (last (node_runs e n)) = RunFailed) (nodes e)"

text \<open>
  Modelled from the spec: one event on an experiment; \<open>None\<close> when the event cannot happen
  in this state (a refused \<open>Start\<close>, a scheduler event out of turn).  A node is dispatched
  again only once its latest run is terminal, and only a run that is not terminal yet
  changes status.
\<close>

fun step :: "experiment_record \<Rightarrow> event \<Rightarrow> experiment_record option" where
  "step e Start = (case fst (start e) of Inl err \<Rightarrow> None | Inr snapshot \<Rightarrow> Some (snd (start e)))"
| "step e Stop = Some (snd (stop e))"
| "step e SchedulerBegins =
     (if status e = Queuing then Some (e\<lparr>status := InProgress\<rparr>) else None)"
| "step e (Dispatch n rn) =
     (if status e = InProgress \<and> n \<in> set (nodes e)
         \<and> (node_runs e n = [] \<or> run_terminal (run_status (last (node_runs e n))))
      then Some (e\<lparr>node_runs := (node_runs e)
                    (n := node_runs e n @ [\<lparr>run_name = rn, run_status = RunQueued\<rparr>])\<rparr>)
      else None)"
| "step e (NodeReports n s) =
     (if status e = InProgress \<and> s \<noteq> RunQueued \<and> node_runs e n \<noteq> []
         \<and> \<not> run_terminal (run_status (last (node_runs e n)))
      then Some (e\<lparr>node_runs := (node_runs e)
                    (n := butlast (node_runs e n) @ [(last (node_runs e n))\<lparr>run_status := s\<rparr>])\<rparr>)
      else None)"
| "step e AllNodesTerminal =
     (if status e = InProgress \<and> all_nodes_terminal e
      then Some (e\<lparr>status := (if some_node_failed e then Failed else Completed)\<rparr>)
      else None)"
| "step e Finish =
     (if status e = Completed \<or> status e = Failed then Some (e\<lparr>status := Terminated\<rparr>)
      else None)"

text \<open>
  Modelled from the spec: a sequence of events from a state, with every state passed on
  the way (the first is the state it starts from); \<open>None\<close> when one of the events cannot
  happen.
\<close>

fun run_trace :: "experiment_record \<Rightarrow> event list \<Rightarrow> experiment_record list option" where
  "run_trace e [] = Some [e]"
| "run_trace e (ev # evs) =
     (case step e ev of
        None \<Rightarrow> None
      | Some e' \<Rightarrow> (case run_trace e' evs of None \<Rightarrow> None | Some tr \<Rightarrow> Some (e # tr)))"

text \<open>
  Modelled from the spec: the state a sequence of events ends in (the experiment as the
  missing controller would return it from \<^verbatim>\<open>get\<close> afterwards).
\<close>

definition run_events :: "experiment_record \<Rightarrow> event list \<Rightarrow> experiment_record option" where
  "run_events e evs = (case run_trace e evs of None \<Rightarrow> None | Some tr \<Rightarrow> Some (last tr))"

text \<open>
  Modelled from the spec: whether an event is a dispatch of a given node by the missing
  scheduler.
\<close>

fun is_dispatch :: "string \<Rightarrow> event \<Rightarrow> bool" where
  "is_dispatch n (Dispatch m rn) = (m = n)"
| "is_dispatch n ev = False"

text \<open>
  Modelled from the spec: how often the missing scheduler dispatches a node in a sequence
  of events.
\<close>

definition dispatched :: "string \<Rightarrow> event list \<Rightarrow> nat" where
  "dispatched n evs = length (filter (is_dispatch n) evs)"

text \<open>
  Example experiments: one in progress with a finished, a running and a queued node run,
  and a run of events on a fresh experiment with nodes \<open>main\<close> and \<open>eval\<close>.
\<close>

definition busy_experiment :: experiment_record where
  "busy_experiment =
     \<lparr>exp_name = ''exp1'', nodes = [''main'', ''eval''], status = InProgress,
      node_runs = (\<lambda>n. if n = ''main''
                        then [\<lparr>run_name = ''main_0'', run_status = RunCompleted\<rparr>,
                              \<lparr>run_name = ''main_1'', run_status = RunRunning\<rparr>]
                        else if n = ''eval''
                        then [\<lparr>run_name = ''eval_0'', run_status = RunQueued\<rparr>]
                        else [])\<rparr>"

definition first_run :: "event list" where
  "first_run = [Start, SchedulerBegins, Dispatch ''main'' ''main_0'',
                NodeReports ''main'' RunRunning, NodeReports ''main'' RunCompleted,
                Dispatch ''eval'' ''eval_0'', NodeReports ''eval'' RunCompleted,
                AllNodesTerminal, Finish]"

definition second_run :: "event list" where
  "second_run = [SchedulerBegins, Dispatch ''main'' ''main_1'',
                 NodeReports ''main'' RunRunning, Stop]"

text \<open>
  Modelled from the spec: what the events of the missing controller and scheduler keep
  true of an experiment (an invariant used in the proofs): runs exist only for its nodes,
  every run but the latest of a node is terminal, and outside \<open>InProgress\<close> every run is
  terminal.
\<close>

definition settled :: "experiment_record \<Rightarrow> bool" where
  "settled e \<longleftrightarrow>
     (\<forall>n. (node_runs e n \<noteq> [] \<longrightarrow> n \<in> set (nodes e))
          \<and> list_all (\<lambda>r. run_terminal (run_status r)) (butlast (node_runs e n))
          \<and> (status e \<noteq> InProgress \<longrightarrow>
                list_all (\<lambda>r. run_terminal (run_status r)) (node_runs e n)))"


text \<open>The experiment the events of \<open>first_run\<close> leave behind.\<close>

definition finished_experiment :: experiment_record where
  "finished_experiment =
     \<lparr>exp_name = ''exp1'', nodes = [''main'', ''eval''], status = Terminated,
      node_runs = (\<lambda>n. [])
        (''main'' := [\<lparr>run_name = ''main_0'', run_status = RunCompleted\<rparr>],
         ''eval'' := [\<lparr>run_name = ''eval_0'', run_status = RunCompleted\<rparr>])\<rparr>"

section \<open>The call recorder\<close>

text \<open>
  The sources hold the fixtures that switch recording on (\<^verbatim>\<open>tests/executor/conftest.py\<close>:
  \<^verbatim>\<open>setup_recording\<close> patches the tool decorator with \<^verbatim>\<open>mock_tool\<close> when
  \<^verbatim>\<open>RecordStorage\<close> is in recording or replaying mode); \<^verbatim>\<open>RecordStorage\<close> and \<^verbatim>\<open>mock_tool\<close>
  themselves are not among them.  The definitions of this section follow the
  specification's text.
\<close>












section \<open>Properties of the in-memory trace store\<close>


lemma select_run_ok:
  "list_all has_root_run_id ss \<Longrightarrow> select_run ss run_id = Inr (filter (of_run run_id) ss)"
  by (induction ss) (auto simp: dict_get_def has_root_run_id_def of_run_def split: option.splits)

lemma select_run_fail:
  "\<not> list_all has_root_run_id ss \<Longrightarrow> select_run ss run_id = Inl KeyError"
  by (induction ss)
    (auto simp: dict_get_def has_root_run_id_def split: option.splits sum.splits)

lemma list_remove_first:
  "x \<notin> set pre \<Longrightarrow> list_remove x (pre @ x # rest) = Inr (pre @ rest)"
  by (induction pre) auto

text \<open>
  Removing, one by one, the elements a predicate selects leaves the elements it does not
  select, and no \<^verbatim>\<open>remove\<close> fails: each selected element is still in the list when its
  turn comes.
\<close>

lemma remove_each_filter:
  "filter P ys = sel \<Longrightarrow> remove_each sel ys = (None, filter (\<lambda>s. \<not> P s) ys)"
proof (induction sel arbitrary: ys)
  case Nil
  then have "\<forall>y\<in>set ys. \<not> P y" by (simp add: filter_empty_conv)
  then show ?case by simp
next
  case (Cons s ss)
  from Cons.prems obtain pre rest where
    ys: "ys = pre @ s # rest" and pre: "\<forall>u\<in>set pre. \<not> P u" and s: "P s" and
    rest: "ss = filter P rest"
    by (auto simp: filter_eq_Cons_iff)
  from pre s have "s \<notin> set pre" by blast
  then have rm: "list_remove s ys = Inr (pre @ rest)"
    unfolding ys by (rule list_remove_first)
  from pre rest have "filter P (pre @ rest) = ss" by simp
  then have "remove_each ss (pre @ rest) = (None, filter (\<lambda>s. \<not> P s) (pre @ rest))"
    by (rule Cons.IH)
  with rm s show ?case by (simp add: ys)
qed

lemma pop_spans_ok:
  assumes "list_all has_root_run_id (spans st)"
  shows "pop_spans_from_run_id st run_id =
    (Inr (filter (of_run run_id) (spans st)),
     st\<lparr>spans := filter (\<lambda>s. \<not> of_run run_id s) (spans st)\<rparr>)"
  using assms
  by (simp add: pop_spans_from_run_id_def get_spans_from_run_id_def select_run_ok
      remove_each_filter)

lemma pop_spans_fail:
  assumes "\<not> list_all has_root_run_id (spans st)"
  shows "pop_spans_from_run_id st run_id = (Inl KeyError, st)"
  using assms
  by (simp add: pop_spans_from_run_id_def get_spans_from_run_id_def select_run_fail)

lemma pop_spans_two_parts:
  "pop_spans_from_run_id st run_id =
     (case get_spans_from_run_id st run_id of
        Inl e \<Rightarrow> (Inl e, st)
      | Inr sel \<Rightarrow> remove_selected st sel)"
  by (simp add: pop_spans_from_run_id_def remove_selected_def split: sum.split)








text \<open>
  Claim C9: both accessors are defined exactly when every span of the store carries a
  \<^verbatim>\<open>root_run_id\<close> key.  Under that precondition no attribute lookup takes the missing-key
  branch and both accessors return a list; a store containing a span without the attribute
  makes both raise \<^verbatim>\<open>KeyError\<close>, whatever the run id, and the failed pop leaves the store
  as it was.
\<close>

theorem accessors_defined_iff_root_run_id:
  "(list_all has_root_run_id (spans st) \<longrightarrow>
      list_all (\<lambda>s. \<exists>v. dict_get (attributes s) ''root_run_id'' = Inr v) (spans st)
      \<and> (\<exists>r. get_spans_from_run_id st run_id = Inr r)
      \<and> (\<exists>r st'. pop_spans_from_run_id st run_id = (Inr r, st')))
   \<and> (\<not> list_all has_root_run_id (spans st) \<longrightarrow>
      get_spans_from_run_id st run_id = Inl KeyError
      \<and> pop_spans_from_run_id st run_id = (Inl KeyError, st))"
proof -
  have "list_all (\<lambda>s. \<exists>v. dict_get (attributes s) ''root_run_id'' = Inr v) (spans st)"
    if "list_all has_root_run_id (spans st)"
    using that by (auto simp: list_all_iff has_root_run_id_def dict_get_def)
  then show ?thesis
    by (simp add: get_spans_from_run_id_def select_run_ok select_run_fail pop_spans_ok
        pop_spans_fail)
qed

theorem accessors_defined_iff_root_run_id_witness:
  "list_all has_root_run_id (spans \<lparr>spans = [root_span, other_span]\<rparr>)
   \<and> get_spans_from_run_id \<lparr>spans = [root_span, other_span]\<rparr> ''run2'' = Inr [other_span]
   \<and> pop_spans_from_run_id \<lparr>spans = [root_span, other_span]\<rparr> ''run2''
       = (Inr [other_span], \<lparr>spans = [root_span]\<rparr>)
   \<and> \<not> list_all has_root_run_id (spans \<lparr>spans = [bare_span, other_span]\<rparr>)
   \<and> get_spans_from_run_id \<lparr>spans = [bare_span, other_span]\<rparr> ''run2'' = Inl KeyError
   \<and> pop_spans_from_run_id \<lparr>spans = [bare_span, other_span]\<rparr> ''run2''
       = (Inl KeyError, \<lparr>spans = [bare_span, other_span]\<rparr>)"
proof -
  have ok: "list_all has_root_run_id (spans \<lparr>spans = [root_span, other_span]\<rparr>)"
    by (simp add: has_root_run_id_def root_span_def other_span_def)
  have bad: "\<not> list_all has_root_run_id (spans \<lparr>spans = [bare_span, other_span]\<rparr>)"
    by (simp add: has_root_run_id_def bare_span_def)
  have get: "get_spans_from_run_id \<lparr>spans = [root_span, other_span]\<rparr> ''run2'' = Inr [other_span]"
    by (simp add: get_spans_from_run_id_def dict_get_def root_span_def other_span_def)
  have pop: "pop_spans_from_run_id \<lparr>spans = [root_span, other_span]\<rparr> ''run2''
       = (Inr [other_span], \<lparr>spans = [root_span]\<rparr>)"
    by (simp add: pop_spans_from_run_id_def get_spans_from_run_id_def dict_get_def
        root_span_def other_span_def)
  show ?thesis
    using ok bad get pop
      accessors_defined_iff_root_run_id[of "\<lparr>spans = [bare_span, other_span]\<rparr>" "''run2''"]
      accessors_defined_iff_root_run_id[of "\<lparr>spans = [root_span, other_span]\<rparr>" "''run2''"]
    by simp
qed

section \<open>Properties of the tree console exporter\<close>

subsection \<open>Filing\<close>

lemma children_of_file_span:
  "children_of (span_tree (file_span ex s)) k
     = children_of (span_tree ex) k @ (if parent_id s = k then [s] else [])"
  by (simp add: children_of_def file_span_def Let_def)

lemma children_of_filed:
  "children_of (span_tree (foldl file_span ex batch)) k
     = children_of (span_tree ex) k @ filter (\<lambda>s. parent_id s = k) batch"
  by (induction batch arbitrary: ex) (simp_all add: children_of_file_span)

lemma key_file_span:
  "span_tree (file_span ex s) k = None \<longleftrightarrow> span_tree ex k = None \<and> parent_id s \<noteq> k"
  by (auto simp add: file_span_def Let_def)

lemma key_filed:
  "span_tree (foldl file_span ex batch) k = None
     \<longleftrightarrow> span_tree ex k = None \<and> filter (\<lambda>s. parent_id s = k) batch = []"
  by (induction batch arbitrary: ex) (auto simp add: key_file_span)

lemma span_tree_filed:
  "span_tree (foldl file_span ex batch) k =
     (if span_tree ex k = None \<and> filter (\<lambda>s. parent_id s = k) batch = [] then None
      else Some (children_of (span_tree ex) k @ filter (\<lambda>s. parent_id s = k) batch))"
proof (cases "span_tree (foldl file_span ex batch) k")
  case None
  then show ?thesis by (simp add: key_filed)
next
  case (Some ss)
  then have "children_of (span_tree (foldl file_span ex batch)) k = ss"
    by (simp add: children_of_def)
  then have "ss = children_of (span_tree ex) k @ filter (\<lambda>s. parent_id s = k) batch"
    by (simp add: children_of_filed)
  moreover from Some have "\<not> (span_tree ex k = None \<and> filter (\<lambda>s. parent_id s = k) batch = [])"
    using key_filed[of ex batch k] by simp
  ultimately show ?thesis using Some by simp
qed

lemma filed_by_parent_children:
  "filed_by_parent tree \<longleftrightarrow> (\<forall>k. \<forall>s\<in>set (children_of tree k). parent_id s = k)"
  unfolding filed_by_parent_def children_of_def
proof (intro iffI allI ballI impI)
  fix k s
  assume a: "\<forall>k ss. tree k = Some ss \<longrightarrow> (\<forall>s\<in>set ss. parent_id s = k)"
    and s: "s \<in> set (case tree k of None \<Rightarrow> [] | Some ss \<Rightarrow> ss)"
  show "parent_id s = k"
  proof (cases "tree k")
    case None
    with s show ?thesis by simp
  next
    case (Some ss)
    with s a show ?thesis by auto
  qed
next
  fix k ss s
  assume a: "\<forall>k. \<forall>s\<in>set (case tree k of None \<Rightarrow> [] | Some ss \<Rightarrow> ss). parent_id s = k"
    and "tree k = Some ss" "s \<in> set ss"
  then have "s \<in> set (case tree k of None \<Rightarrow> [] | Some ss \<Rightarrow> ss)" by simp
  with a show "parent_id s = k" by blast
qed

lemma filed_by_parent_init: "filed_by_parent (span_tree tree_console_span_exporter_init)"
  by (simp add: filed_by_parent_def tree_console_span_exporter_init_def)

lemma filed_by_parent_filed:
  "filed_by_parent (span_tree ex) \<Longrightarrow> filed_by_parent (span_tree (foldl file_span ex batch))"
  by (auto simp: filed_by_parent_children children_of_filed)

subsection \<open>Printing order\<close>

lemma under_Nil: "printed_under pid level []"
  by (simp add: printed_under_def)

lemma under_append:
  assumes "printed_under pid level a" and "printed_under pid level b"
  shows "printed_under pid level (a @ b)"
  unfolding printed_under_def
proof (intro allI impI)
  fix pre e post
  assume eq: "a @ b = pre @ e # post"
  then consider (left) us where "a = pre @ e # us" "post = us @ b"
    | (right) us where "pre = a @ us" "b = us @ e # post"
    by (auto simp: append_eq_append_conv2 append_eq_Cons_conv Cons_eq_append_conv)
  then show "(fst e = level \<and> parent_id (snd e) = pid)
        \<or> (level < fst e \<and> (\<exists>e'\<in>set pre. Suc (fst e') = fst e
              \<and> parent_id (snd e) = Some (span_id (ctx (snd e')))))"
  proof cases
    case left
    with assms(1) show ?thesis unfolding printed_under_def by blast
  next
    case right
    from assms(2) right(2) have "(fst e = level \<and> parent_id (snd e) = pid)
        \<or> (level < fst e \<and> (\<exists>e'\<in>set us. Suc (fst e') = fst e
              \<and> parent_id (snd e) = Some (span_id (ctx (snd e')))))"
      unfolding printed_under_def by blast
    with right(1) show ?thesis by auto
  qed
qed

lemma under_Cons:
  assumes sub: "printed_under (Some (span_id (ctx s))) (Suc level) out" and par: "parent_id s = pid"
  shows "printed_under pid level ((level, s) # out)"
  unfolding printed_under_def
proof (intro allI impI)
  fix pre e post
  assume eq: "(level, s) # out = pre @ e # post"
  show "(fst e = level \<and> parent_id (snd e) = pid)
        \<or> (level < fst e \<and> (\<exists>e'\<in>set pre. Suc (fst e') = fst e
              \<and> parent_id (snd e) = Some (span_id (ctx (snd e')))))"
  proof (cases pre)
    case Nil
    with eq par show ?thesis by auto
  next
    case (Cons p pre')
    with eq have p: "p = (level, s)" and out: "out = pre' @ e # post" by auto
    from sub out have "(fst e = Suc level \<and> parent_id (snd e) = Some (span_id (ctx s)))
        \<or> (Suc level < fst e \<and> (\<exists>e'\<in>set pre'. Suc (fst e') = fst e
              \<and> parent_id (snd e) = Some (span_id (ctx (snd e')))))"
      unfolding printed_under_def by blast
    then show ?thesis
    proof
      assume "fst e = Suc level \<and> parent_id (snd e) = Some (span_id (ctx s))"
      then show ?thesis using Cons p by auto
    next
      assume "Suc level < fst e \<and> (\<exists>e'\<in>set pre'. Suc (fst e') = fst e
              \<and> parent_id (snd e) = Some (span_id (ctx (snd e'))))"
      then show ?thesis using Cons by auto
    qed
  qed
qed

lemma for_spans_under:
  assumes "\<forall>s\<in>set ss. parent_id s = pid"
    and "\<forall>s\<in>set ss. printed_under (Some (span_id (ctx s))) (Suc level)
           (fst (rec (Some (span_id (ctx s))) (Suc level)))"
  shows "printed_under pid level (fst (for_spans rec level ss))"
  using assms
proof (induction ss)
  case Nil
  show ?case by (simp add: under_Nil)
next
  case (Cons s ss)
  obtain sub ok where r: "rec (Some (span_id (ctx s))) (Suc level) = (sub, ok)"
    by (cases "rec (Some (span_id (ctx s))) (Suc level)")
  obtain rest ok' where f: "for_spans rec level ss = (rest, ok')"
    by (cases "for_spans rec level ss")
  from Cons.prems r have sub: "printed_under (Some (span_id (ctx s))) (Suc level) sub" by simp
  from Cons.prems have par: "parent_id s = pid" by simp
  from Cons have rest: "printed_under pid level rest" by (simp add: f)
  have one: "printed_under pid level ((level, s) # sub)" using sub par by (rule under_Cons)
  have "printed_under pid level (((level, s) # sub) @ rest)" using one rest by (rule under_append)
  with one show ?case by (cases ok) (simp_all add: r f)
qed

lemma print_tree_under:
  "filed_by_parent tree \<Longrightarrow> printed_under pid level (fst (print_tree depth tree pid level))"
proof (induction depth arbitrary: pid level)
  case 0
  show ?case by (simp add: under_Nil split: option.splits)
next
  case (Suc depth)
  show ?case
  proof (cases "tree pid")
    case None
    then show ?thesis by (simp add: under_Nil)
  next
    case (Some ss)
    with Suc.prems have "\<forall>s\<in>set ss. parent_id s = pid" by (auto simp: filed_by_parent_def)
    moreover have "\<forall>s\<in>set ss. printed_under (Some (span_id (ctx s))) (Suc level)
           (fst (print_tree depth tree (Some (span_id (ctx s))) (Suc level)))"
      using Suc.IH[OF Suc.prems] by blast
    ultimately have "printed_under pid level (fst (for_spans (print_tree depth tree) level ss))"
      by (rule for_spans_under)
    with Some show ?thesis by simp
  qed
qed

lemma under_nth:
  assumes "printed_under pid level out" and "j < length out"
  shows "(fst (out ! j) = level \<and> parent_id (snd (out ! j)) = pid)
       \<or> (level < fst (out ! j) \<and> (\<exists>i<j. Suc (fst (out ! i)) = fst (out ! j)
              \<and> parent_id (snd (out ! j)) = Some (span_id (ctx (snd (out ! i))))))"
proof -
  from assms(2) have "out = take j out @ out ! j # drop (Suc j) out"
    by (rule id_take_nth_drop)
  with assms(1) have "(fst (out ! j) = level \<and> parent_id (snd (out ! j)) = pid)
        \<or> (level < fst (out ! j) \<and> (\<exists>e'\<in>set (take j out). Suc (fst e') = fst (out ! j)
              \<and> parent_id (snd (out ! j)) = Some (span_id (ctx (snd e')))))"
    unfolding printed_under_def by blast
  moreover have "\<exists>i<j. out ! i = e'" if "e' \<in> set (take j out)" for e'
  proof -
    from that obtain i where "i < length (take j out)" "take j out ! i = e'"
      by (auto simp: in_set_conv_nth)
    then show ?thesis using assms(2) by auto
  qed
  ultimately show ?thesis by blast
qed

subsection \<open>Completion\<close>

lemma for_spans_ok:
  assumes "\<forall>s\<in>set ss. snd (rec (Some (span_id (ctx s))) (level + 1))"
  shows "snd (for_spans rec level ss)"
  using assms by (induction ss) (auto split: prod.splits bool.splits)

lemma print_tree_returns:
  assumes "\<forall>k s. s \<in> set (children_of tree k) \<longrightarrow> rank (Some (span_id (ctx s))) < rank k"
  shows "rank pid \<le> depth \<Longrightarrow> snd (print_tree depth tree pid level)"
proof (induction depth arbitrary: pid level)
  case 0
  have "ss = []" if "tree pid = Some ss" for ss
  proof (cases ss)
    case (Cons s ss')
    with that have "s \<in> set (children_of tree pid)" by (simp add: children_of_def)
    with assms have "rank (Some (span_id (ctx s))) < rank pid" by blast
    with 0 show ?thesis by simp
  qed simp
  then show ?case by (simp split: option.splits)
next
  case (Suc depth)
  show ?case
  proof (cases "tree pid")
    case None
    then show ?thesis by simp
  next
    case (Some ss)
    have "snd (print_tree depth tree (Some (span_id (ctx s))) (level + 1))" if "s \<in> set ss" for s
    proof -
      from that Some have "s \<in> set (children_of tree pid)" by (simp add: children_of_def)
      with assms have "rank (Some (span_id (ctx s))) < rank pid" by blast
      with Suc.prems have "rank (Some (span_id (ctx s))) \<le> depth" by simp
      then show ?thesis by (rule Suc.IH)
    qed
    then have "snd (for_spans (print_tree depth tree) level ss)"
      by (intro for_spans_ok) blast
    with Some show ?thesis by simp
  qed
qed

subsection \<open>Levels\<close>

lemma for_spans_levels:
  assumes "\<forall>s\<in>set ss. \<forall>e\<in>set (fst (rec (Some (span_id (ctx s))) (level + 1))). level < fst e"
  shows "\<exists>n\<le>length ss. filter (\<lambda>e. fst e \<le> level) (fst (for_spans rec level ss))
            = map (Pair level) (take n ss)
          \<and> (snd (for_spans rec level ss) \<longrightarrow> n = length ss)"
  using assms
proof (induction ss)
  case Nil
  then show ?case by simp
next
  case (Cons s ss)
  obtain sub ok where r: "rec (Some (span_id (ctx s))) (level + 1) = (sub, ok)"
    by (cases "rec (Some (span_id (ctx s))) (level + 1)")
  obtain rest ok' where f: "for_spans rec level ss = (rest, ok')"
    by (cases "for_spans rec level ss")
  from Cons.prems r have sub: "filter (\<lambda>e. fst e \<le> level) sub = []"
    by (auto simp: filter_empty_conv)
  show ?case
  proof (cases ok)
    case False
    with r sub show ?thesis by (intro exI[of _ 1]) simp
  next
    case True
    from Cons obtain n where n: "n \<le> length ss"
      "filter (\<lambda>e. fst e \<le> level) rest = map (Pair level) (take n ss)" "ok' \<longrightarrow> n = length ss"
      by (auto simp: f)
    with True r sub f show ?thesis by (intro exI[of _ "Suc n"]) simp
  qed
qed

lemma print_tree_levels:
  "(\<forall>e\<in>set (fst (print_tree depth tree pid level)). level \<le> fst e)
   \<and> (\<exists>n\<le>length (children_of tree pid).
        filter (\<lambda>e. fst e \<le> level) (fst (print_tree depth tree pid level))
          = map (Pair level) (take n (children_of tree pid))
        \<and> (snd (print_tree depth tree pid level) \<longrightarrow> n = length (children_of tree pid)))"
proof (induction depth arbitrary: pid level)
  case 0
  show ?case by (auto simp: children_of_def split: option.splits)
next
  case (Suc depth)
  show ?case
  proof (cases "tree pid")
    case None
    then show ?thesis by (simp add: children_of_def)
  next
    case (Some ss)
    have deeper: "\<forall>s\<in>set ss. \<forall>e\<in>set (fst (print_tree depth tree (Some (span_id (ctx s))) (level + 1))).
        level < fst e"
      using Suc.IH by fastforce
    from for_spans_levels[where ss = ss and rec = "print_tree depth tree" and level = level, OF deeper] obtain n where n: "n \<le> length ss"
      "filter (\<lambda>e. fst e \<le> level) (fst (for_spans (print_tree depth tree) level ss))
            = map (Pair level) (take n ss)"
      "snd (for_spans (print_tree depth tree) level ss) \<longrightarrow> n = length ss"
      by blast
    have ge: "\<forall>e\<in>set (fst (for_spans (print_tree depth tree) level ss)). level \<le> fst e"
      using deeper
    proof (induction ss)
      case Nil
      then show ?case by simp
    next
      case (Cons s ss)
      then show ?case by (fastforce split: prod.splits bool.splits)
    qed
    from n ge Some show ?thesis by (auto simp: children_of_def)
  qed
qed

subsection \<open>Completeness\<close>

lemma blocks_Nil: "printed_blocks tree []"
  by (simp add: printed_blocks_def)

lemma takeWhile_stops:
  assumes "b = [] \<or> \<not> P (hd b)"
  shows "takeWhile P (us @ b) = takeWhile P us"
proof (cases "\<forall>x\<in>set us. P x")
  case True
  then have "takeWhile P (us @ b) = us @ takeWhile P b" by (intro takeWhile_append2) blast
  moreover from assms have "takeWhile P b = []" by (cases b) auto
  moreover from True have "takeWhile P us = us" by (simp add: takeWhile_eq_all_conv)
  ultimately show ?thesis by (simp only: append_Nil2)
next
  case False
  then obtain x where "x \<in> set us" "\<not> P x" by blast
  then show ?thesis by (rule takeWhile_append1)
qed

lemma blocks_append:
  assumes a: "printed_blocks tree a" and b: "printed_blocks tree b"
    and low: "b = [] \<or> (\<forall>e\<in>set a. fst (hd b) \<le> fst e)"
  shows "printed_blocks tree (a @ b)"
  unfolding printed_blocks_def
proof (intro allI impI)
  fix pre e post
  assume eq: "a @ b = pre @ e # post"
  then consider (left) us where "a = pre @ e # us" "post = us @ b"
    | (right) us where "pre = a @ us" "b = us @ e # post"
    by (auto simp: append_eq_append_conv2 append_eq_Cons_conv Cons_eq_append_conv)
  then show "map snd (filter (\<lambda>x. fst x = Suc (fst e)) (takeWhile (\<lambda>x. fst e < fst x) post))
          = children_of tree (Some (span_id (ctx (snd e))))"
  proof cases
    case left
    from left(1) have "e \<in> set a" by simp
    with low have "b = [] \<or> \<not> fst e < fst (hd b)" by auto
    then have "takeWhile (\<lambda>x. fst e < fst x) (us @ b) = takeWhile (\<lambda>x. fst e < fst x) us"
      by (rule takeWhile_stops)
    moreover from a left(1)
    have "map snd (filter (\<lambda>x. fst x = Suc (fst e)) (takeWhile (\<lambda>x. fst e < fst x) us))
          = children_of tree (Some (span_id (ctx (snd e))))"
      unfolding printed_blocks_def by blast
    ultimately show ?thesis by (simp add: left(2))
  next
    case right
    with b show ?thesis unfolding printed_blocks_def by blast
  qed
qed

lemma blocks_Cons:
  assumes sub: "printed_blocks tree sub"
    and deep: "\<forall>x\<in>set sub. level < fst x"
    and kids: "map snd (filter (\<lambda>x. fst x = Suc level) sub)
                 = children_of tree (Some (span_id (ctx s)))"
  shows "printed_blocks tree ((level, s) # sub)"
  unfolding printed_blocks_def
proof (intro allI impI)
  fix pre e post
  assume eq: "(level, s) # sub = pre @ e # post"
  show "map snd (filter (\<lambda>x. fst x = Suc (fst e)) (takeWhile (\<lambda>x. fst e < fst x) post))
          = children_of tree (Some (span_id (ctx (snd e))))"
  proof (cases pre)
    case Nil
    with eq have e: "e = (level, s)" and post: "post = sub" by simp_all
    from deep have tw: "takeWhile (\<lambda>x. level < fst x) sub = sub"
      by (simp add: takeWhile_eq_all_conv)
    show ?thesis unfolding e post fst_conv snd_conv tw by (rule kids)
  next
    case (Cons p pre')
    with eq have "sub = pre' @ e # post" by simp
    with sub show ?thesis unfolding printed_blocks_def by blast
  qed
qed

lemma for_spans_all_ok:
  "snd (for_spans rec level ss) \<Longrightarrow> s \<in> set ss \<Longrightarrow> snd (rec (Some (span_id (ctx s))) (level + 1))"
  by (induction ss) (auto split: prod.splits bool.splits)

lemma for_spans_hd:
  "for_spans rec level ss = (out, ok) \<Longrightarrow> out = [] \<or> fst (hd out) = level"
  by (cases ss) (auto split: prod.splits bool.splits)

lemma for_spans_blocks:
  assumes ok: "snd (for_spans rec level ss)"
    and sub: "\<forall>s\<in>set ss. printed_blocks tree (fst (rec (Some (span_id (ctx s))) (level + 1)))"
    and deep: "\<forall>s\<in>set ss. \<forall>x\<in>set (fst (rec (Some (span_id (ctx s))) (level + 1))). level < fst x"
    and kids: "\<forall>s\<in>set ss.
        map snd (filter (\<lambda>x. fst x = Suc level) (fst (rec (Some (span_id (ctx s))) (level + 1))))
          = children_of tree (Some (span_id (ctx s)))"
  shows "printed_blocks tree (fst (for_spans rec level ss))"
  using assms
proof (induction ss)
  case Nil
  show ?case by (simp add: blocks_Nil)
next
  case (Cons s ss)
  obtain sub ok1 where r: "rec (Some (span_id (ctx s))) (level + 1) = (sub, ok1)"
    by (cases "rec (Some (span_id (ctx s))) (level + 1)")
  obtain rest ok2 where f: "for_spans rec level ss = (rest, ok2)"
    by (cases "for_spans rec level ss")
  from Cons.prems(1) r f have ok1: "ok1" and ok2: "ok2" by (auto split: bool.splits)
  from Cons.prems(2) r have bsub: "printed_blocks tree sub" by simp
  from Cons.prems(3) r have dsub: "\<forall>x\<in>set sub. level < fst x" by simp
  from Cons.prems(4) r have ksub: "map snd (filter (\<lambda>x. fst x = Suc level) sub)
      = children_of tree (Some (span_id (ctx s)))" by simp
  have one: "printed_blocks tree ((level, s) # sub)" using bsub dsub ksub by (rule blocks_Cons)
  have "snd (for_spans rec level ss)" using ok2 f by simp
  then have brest: "printed_blocks tree (fst (for_spans rec level ss))"
    using Cons.prems(2-4) by (intro Cons.IH) simp_all
  from for_spans_hd[OF f] have "rest = [] \<or> fst (hd rest) = level" .
  with dsub have low: "rest = [] \<or> (\<forall>e\<in>set ((level, s) # sub). fst (hd rest) \<le> fst e)"
    by auto
  have "printed_blocks tree (((level, s) # sub) @ rest)"
    using one brest[unfolded f fst_conv] low by (rule blocks_append)
  with ok1 r f show ?case by simp
qed

lemma print_tree_blocks:
  "snd (print_tree depth tree pid level)
     \<Longrightarrow> printed_blocks tree (fst (print_tree depth tree pid level))"
proof (induction depth arbitrary: pid level)
  case 0
  show ?case by (simp add: blocks_Nil split: option.splits)
next
  case (Suc depth)
  show ?case
  proof (cases "tree pid")
    case None
    then show ?thesis by (simp add: blocks_Nil)
  next
    case (Some ss)
    with Suc.prems have ok: "snd (for_spans (print_tree depth tree) level ss)" by simp
    have sok: "snd (print_tree depth tree (Some (span_id (ctx s))) (level + 1))"
      if "s \<in> set ss" for s
      using ok that by (rule for_spans_all_ok)
    have b: "\<forall>s\<in>set ss.
        printed_blocks tree (fst (print_tree depth tree (Some (span_id (ctx s))) (level + 1)))"
      using Suc.IH sok by blast
    have d: "\<forall>s\<in>set ss.
        \<forall>x\<in>set (fst (print_tree depth tree (Some (span_id (ctx s))) (level + 1))). level < fst x"
    proof (intro ballI)
      fix s x
      assume "s \<in> set ss"
        and x: "x \<in> set (fst (print_tree depth tree (Some (span_id (ctx s))) (level + 1)))"
      from conjunct1[OF print_tree_levels[of depth tree "Some (span_id (ctx s))" "level + 1"]] x
      have "level + 1 \<le> fst x" by (rule bspec)
      then show "level < fst x" by simp
    qed
    have k: "\<forall>s\<in>set ss.
        map snd (filter (\<lambda>x. fst x = Suc level)
          (fst (print_tree depth tree (Some (span_id (ctx s))) (level + 1))))
          = children_of tree (Some (span_id (ctx s)))"
    proof (intro ballI)
      fix s
      assume s: "s \<in> set ss"
      let ?sub = "fst (print_tree depth tree (Some (span_id (ctx s))) (level + 1))"
      let ?kids = "children_of tree (Some (span_id (ctx s)))"
      from conjunct2[OF print_tree_levels[of depth tree "Some (span_id (ctx s))" "level + 1"]]
      obtain n where n: "filter (\<lambda>e. fst e \<le> level + 1) ?sub = map (Pair (level + 1)) (take n ?kids)"
        "snd (print_tree depth tree (Some (span_id (ctx s))) (level + 1)) \<longrightarrow> n = length ?kids"
        by (elim exE conjE)
      from n(2) sok[OF s] have "n = length ?kids" by (rule mp)
      with n(1) have le: "filter (\<lambda>e. fst e \<le> level + 1) ?sub = map (Pair (level + 1)) ?kids"
        by simp
      from d s have "\<forall>x\<in>set ?sub. level < fst x" by (rule bspec)
      then have "filter (\<lambda>x. fst x = Suc level) ?sub = filter (\<lambda>e. fst e \<le> level + 1) ?sub"
        by (intro filter_cong refl) auto
      with le show "map snd (filter (\<lambda>x. fst x = Suc level) ?sub) = ?kids"
        by (simp add: comp_def)
    qed
    from ok b d k have "printed_blocks tree (fst (for_spans (print_tree depth tree) level ss))"
      by (rule for_spans_blocks)
    with Some show ?thesis by simp
  qed
qed

lemma blocks_nth:
  assumes "printed_blocks tree out" and "j < length out"
  shows "map snd (filter (\<lambda>x. fst x = Suc (fst (out ! j)))
           (takeWhile (\<lambda>x. fst (out ! j) < fst x) (drop (Suc j) out)))
         = children_of tree (Some (span_id (ctx (snd (out ! j)))))"
proof -
  from assms(2) have "out = take j out @ out ! j # drop (Suc j) out"
    by (rule id_take_nth_drop)
  with assms(1) show ?thesis unfolding printed_blocks_def by blast
qed

lemma child_printed_later:
  assumes blk: "map snd (filter (\<lambda>x. fst x = Suc l) (takeWhile (\<lambda>x. l < fst x) (drop (Suc j) out)))
                  = kids"
    and c: "c \<in> set kids"
  shows "\<exists>i. j < i \<and> i < length out \<and> out ! i = (Suc l, c)"
proof -
  from c blk obtain x where x: "x \<in> set (takeWhile (\<lambda>x. l < fst x) (drop (Suc j) out))"
    "fst x = Suc l" "snd x = c"
    by auto
  from x(1) have "x \<in> set (drop (Suc j) out)" by (rule set_takeWhileD[THEN conjunct1])
  then obtain m where m: "m < length (drop (Suc j) out)" "drop (Suc j) out ! m = x"
    by (auto simp: in_set_conv_nth)
  from m(1) have lt: "Suc j + m < length out" by simp
  with m(2) have "out ! (Suc j + m) = x" by simp
  moreover from x(2,3) have "x = (Suc l, c)" by (cases x) simp
  ultimately show ?thesis using lt by (intro exI[of _ "Suc j + m"]) simp
qed

subsection \<open>No level skipped\<close>

lemma steps_Cons:
  "printed_steps (a # out) \<longleftrightarrow> (out = [] \<or> fst (hd out) \<le> Suc (fst a)) \<and> printed_steps out"
  by (cases out) auto

lemma steps_append:
  "printed_steps a \<Longrightarrow> printed_steps b \<Longrightarrow>
   a = [] \<or> b = [] \<or> fst (hd b) \<le> Suc (fst (last a)) \<Longrightarrow> printed_steps (a @ b)"
proof (induction a rule: printed_steps.induct)
  case 1
  then show ?case by simp
next
  case (2 x)
  then show ?case by (cases b) auto
next
  case (3 x y rest)
  then show ?case by auto
qed

lemma steps_nth:
  "printed_steps out \<Longrightarrow> Suc j < length out \<Longrightarrow> fst (out ! Suc j) \<le> Suc (fst (out ! j))"
proof (induction out arbitrary: j rule: printed_steps.induct)
  case 1
  then show ?case by simp
next
  case (2 a)
  then show ?case by simp
next
  case (3 a b rest)
  then show ?case by (cases j) auto
qed

lemma print_tree_hd:
  "fst (print_tree depth tree pid level) = [] \<or> fst (hd (fst (print_tree depth tree pid level))) = level"
proof (cases depth)
  case 0
  then show ?thesis by (simp split: option.splits)
next
  case (Suc d)
  show ?thesis
  proof (cases "tree pid")
    case None
    with Suc show ?thesis by simp
  next
    case (Some ss)
    obtain out ok where f: "for_spans (print_tree d tree) level ss = (out, ok)"
      by (cases "for_spans (print_tree d tree) level ss")
    from for_spans_hd[OF f] Suc Some f show ?thesis by simp
  qed
qed

lemma for_spans_steps:
  assumes "\<forall>s\<in>set ss. printed_steps (fst (rec (Some (span_id (ctx s))) (level + 1)))"
    and "\<forall>s\<in>set ss. fst (rec (Some (span_id (ctx s))) (level + 1)) = []
           \<or> fst (hd (fst (rec (Some (span_id (ctx s))) (level + 1)))) = level + 1"
    and "\<forall>s\<in>set ss. \<forall>x\<in>set (fst (rec (Some (span_id (ctx s))) (level + 1))). level < fst x"
  shows "printed_steps (fst (for_spans rec level ss))"
  using assms
proof (induction ss)
  case Nil
  show ?case by simp
next
  case (Cons s ss)
  obtain sub ok1 where r: "rec (Some (span_id (ctx s))) (level + 1) = (sub, ok1)"
    by (cases "rec (Some (span_id (ctx s))) (level + 1)")
  obtain rest ok2 where f: "for_spans rec level ss = (rest, ok2)"
    by (cases "for_spans rec level ss")
  from Cons.prems(1) r have ssub: "printed_steps sub" by simp
  from Cons.prems(2) r have hsub: "sub = [] \<or> fst (hd sub) = level + 1" by simp
  from Cons.prems(3) r have dsub: "\<forall>x\<in>set sub. level < fst x" by simp
  from ssub hsub have one: "printed_steps ((level, s) # sub)" by (auto simp: steps_Cons)
  have "printed_steps (fst (for_spans rec level ss))"
    using Cons.prems by (intro Cons.IH) simp_all
  then have srest: "printed_steps rest" by (simp add: f)
  from for_spans_hd[OF f] have hrest: "rest = [] \<or> fst (hd rest) = level" .
  have "level \<le> fst (last ((level, s) # sub))"
  proof (cases "sub = []")
    case True
    then show ?thesis by simp
  next
    case False
    then have "last sub \<in> set sub" by simp
    with dsub have "level < fst (last sub)" by (rule bspec)
    with False show ?thesis by simp
  qed
  with hrest have "(level, s) # sub = [] \<or> rest = []
      \<or> fst (hd rest) \<le> Suc (fst (last ((level, s) # sub)))"
    by auto
  with one srest have all: "printed_steps (((level, s) # sub) @ rest)" by (rule steps_append)
  show ?case
  proof (cases ok1)
    case True
    with r f all show ?thesis by simp
  next
    case False
    with r one show ?thesis by simp
  qed
qed

lemma print_tree_steps: "printed_steps (fst (print_tree depth tree pid level))"
proof (induction depth arbitrary: pid level)
  case 0
  show ?case by (simp split: option.splits)
next
  case (Suc depth)
  show ?case
  proof (cases "tree pid")
    case None
    then show ?thesis by simp
  next
    case (Some ss)
    have a: "\<forall>s\<in>set ss. printed_steps (fst (print_tree depth tree (Some (span_id (ctx s))) (level + 1)))"
      using Suc.IH by blast
    have b: "\<forall>s\<in>set ss. fst (print_tree depth tree (Some (span_id (ctx s))) (level + 1)) = []
           \<or> fst (hd (fst (print_tree depth tree (Some (span_id (ctx s))) (level + 1)))) = level + 1"
      using print_tree_hd by blast
    have c: "\<forall>s\<in>set ss.
        \<forall>x\<in>set (fst (print_tree depth tree (Some (span_id (ctx s))) (level + 1))). level < fst x"
    proof (intro ballI)
      fix s x
      assume "s \<in> set ss"
        and x: "x \<in> set (fst (print_tree depth tree (Some (span_id (ctx s))) (level + 1)))"
      from conjunct1[OF print_tree_levels[of depth tree "Some (span_id (ctx s))" "level + 1"]] x
      have "level + 1 \<le> fst x" by (rule bspec)
      then show "level < fst x" by simp
    qed
    from a b c have "printed_steps (fst (for_spans (print_tree depth tree) level ss))"
      by (rule for_spans_steps)
    with Some show ?thesis by simp
  qed
qed

subsection \<open>The call of export\<close>

lemma concat_replicate_indent: "concat (replicate n ''  '') = replicate (2 * n) CHR '' ''"
  by (induction n) simp_all

lemma format_line_indent:
  "format_line level s = replicate (2 * level) CHR '' '' @ format_line 0 s
   \<and> take 2 (format_line 0 s) = ''- ''"
  by (simp add: format_line_def concat_replicate_indent)

lemma parent_id_None: "parent_id s = None \<longleftrightarrow> parent s = None"
  by (simp add: parent_id_def split: option.splits)

lemma snd_export: "snd (export depth ex batch) = foldl file_span ex batch"
  by (simp add: export_def Let_def split: prod.splits)

lemma filed_by_parent_exports:
  "filed_by_parent (span_tree ex) \<Longrightarrow>
     filed_by_parent (span_tree (foldl (\<lambda>ex batch. snd (export depth ex batch)) ex batches))"
  by (induction batches arbitrary: ex) (simp_all add: snd_export filed_by_parent_filed)

lemma filed_by_parent_after: "filed_by_parent (span_tree (exporter_after depth batches))"
  unfolding exporter_after_def using filed_by_parent_init by (rule filed_by_parent_exports)

text \<open>
  What one call of \<^verbatim>\<open>export\<close> does, from any exporter whose tree files every span under
  its parent id.
\<close>

lemma export_files_and_prints:
  assumes "filed_by_parent (span_tree ex)"
  shows "\<exists>printed ok.
     export depth ex batch
       = ((map (\<lambda>(level, s). format_line level s) printed, ok), foldl file_span ex batch)
   \<and> (\<forall>k. span_tree (foldl file_span ex batch) k =
          (if span_tree ex k = None \<and> filter (\<lambda>s. parent_id s = k) batch = [] then None
           else Some (children_of (span_tree ex) k @ filter (\<lambda>s. parent_id s = k) batch)))
   \<and> filed_by_parent (span_tree (foldl file_span ex batch))
   \<and> (\<forall>j<length printed.
         (fst (printed ! j) = 0 \<and> parent (snd (printed ! j)) = None)
         \<or> (\<exists>i<j. fst (printed ! j) = Suc (fst (printed ! i))
               \<and> parent_id (snd (printed ! j)) = Some (span_id (ctx (snd (printed ! i))))))
   \<and> ((\<forall>a\<in>set printed. \<forall>b\<in>set printed.
          span_id (ctx (snd a)) = span_id (ctx (snd b)) \<longrightarrow> snd a = snd b) \<longrightarrow>
       (\<forall>i<length printed. \<forall>j<length printed.
          parent_id (snd (printed ! j)) = Some (span_id (ctx (snd (printed ! i)))) \<longrightarrow>
          (\<exists>i'<j. snd (printed ! i') = snd (printed ! i))))
   \<and> (\<exists>n\<le>length (children_of (span_tree (foldl file_span ex batch)) None).
         map snd (filter (\<lambda>e. fst e = 0) printed)
           = take n (children_of (span_tree (foldl file_span ex batch)) None)
         \<and> (ok \<longrightarrow> n = length (children_of (span_tree (foldl file_span ex batch)) None)))
   \<and> (\<forall>level s. format_line level s = replicate (2 * level) CHR '' '' @ format_line 0 s
          \<and> take 2 (format_line 0 s) = ''- '')
   \<and> ((\<exists>rank. (\<forall>k s. s \<in> set (children_of (span_tree (foldl file_span ex batch)) k)
                     \<longrightarrow> rank (Some (span_id (ctx s))) < rank k)
               \<and> rank None \<le> depth) \<longrightarrow> ok)
   \<and> (\<forall>j. Suc j < length printed \<longrightarrow> fst (printed ! Suc j) \<le> Suc (fst (printed ! j)))
   \<and> (ok \<longrightarrow>
       (\<forall>j<length printed.
          map snd (filter (\<lambda>x. fst x = Suc (fst (printed ! j)))
                    (takeWhile (\<lambda>x. fst (printed ! j) < fst x) (drop (Suc j) printed)))
            = children_of (span_tree (foldl file_span ex batch))
                (Some (span_id (ctx (snd (printed ! j)))))
          \<and> (\<forall>c\<in>set (children_of (span_tree (foldl file_span ex batch))
                         (Some (span_id (ctx (snd (printed ! j)))))).
                \<exists>i. j < i \<and> i < length printed \<and> printed ! i = (Suc (fst (printed ! j)), c))))"
proof -
  let ?tree = "span_tree (foldl file_span ex batch)"
  obtain printed ok where p: "print_tree depth ?tree None 0 = (printed, ok)"
    by (cases "print_tree depth ?tree None 0")
  have wf: "filed_by_parent ?tree" using assms by (rule filed_by_parent_filed)
  have ex: "export depth ex batch
       = ((map (\<lambda>(level, s). format_line level s) printed, ok), foldl file_span ex batch)"
    by (simp add: export_def Let_def p)
  have filing: "\<forall>k. ?tree k =
          (if span_tree ex k = None \<and> filter (\<lambda>s. parent_id s = k) batch = [] then None
           else Some (children_of (span_tree ex) k @ filter (\<lambda>s. parent_id s = k) batch))"
    by (simp only: span_tree_filed) simp
  have und: "printed_under None 0 printed"
    using print_tree_under[OF wf, of None 0 depth] by (simp add: p)
  have order: "\<forall>j<length printed.
         (fst (printed ! j) = 0 \<and> parent (snd (printed ! j)) = None)
         \<or> (\<exists>i<j. fst (printed ! j) = Suc (fst (printed ! i))
               \<and> parent_id (snd (printed ! j)) = Some (span_id (ctx (snd (printed ! i)))))"
  proof (intro allI impI)
    fix j assume "j < length printed"
    from under_nth[OF und this] show "(fst (printed ! j) = 0 \<and> parent (snd (printed ! j)) = None)
         \<or> (\<exists>i<j. fst (printed ! j) = Suc (fst (printed ! i))
               \<and> parent_id (snd (printed ! j)) = Some (span_id (ctx (snd (printed ! i)))))"
      by (auto simp: parent_id_None)
  qed
  have strong: "\<forall>i<length printed. \<forall>j<length printed.
          parent_id (snd (printed ! j)) = Some (span_id (ctx (snd (printed ! i)))) \<longrightarrow>
          (\<exists>i'<j. snd (printed ! i') = snd (printed ! i))"
    if uniq: "\<forall>a\<in>set printed. \<forall>b\<in>set printed.
          span_id (ctx (snd a)) = span_id (ctx (snd b)) \<longrightarrow> snd a = snd b"
  proof (intro allI impI)
    fix i j
    assume i: "i < length printed" and j: "j < length printed"
      and par: "parent_id (snd (printed ! j)) = Some (span_id (ctx (snd (printed ! i))))"
    from par have "parent (snd (printed ! j)) \<noteq> None" by (simp add: parent_id_None[symmetric])
    moreover from order j have "(fst (printed ! j) = 0 \<and> parent (snd (printed ! j)) = None)
         \<or> (\<exists>i<j. fst (printed ! j) = Suc (fst (printed ! i))
               \<and> parent_id (snd (printed ! j)) = Some (span_id (ctx (snd (printed ! i)))))"
      by (elim allE[of _ j]) (erule mp)
    ultimately have "\<exists>i<j. fst (printed ! j) = Suc (fst (printed ! i))
               \<and> parent_id (snd (printed ! j)) = Some (span_id (ctx (snd (printed ! i))))"
      by (elim disjE conjE) (erule notE, assumption+)
    then obtain i' where i': "i' < j"
      "parent_id (snd (printed ! j)) = Some (span_id (ctx (snd (printed ! i'))))"
      by (elim exE conjE)
    with par have "span_id (ctx (snd (printed ! i'))) = span_id (ctx (snd (printed ! i)))"
      by simp
    moreover from i' j have "printed ! i' \<in> set printed" by simp
    moreover from i have "printed ! i \<in> set printed" by simp
    ultimately have "snd (printed ! i') = snd (printed ! i)" using uniq by blast
    with i'(1) show "\<exists>i'<j. snd (printed ! i') = snd (printed ! i)" by blast
  qed
  have "\<exists>n\<le>length (children_of ?tree None).
        filter (\<lambda>e. fst e \<le> 0) printed = map (Pair 0) (take n (children_of ?tree None))
        \<and> (ok \<longrightarrow> n = length (children_of ?tree None))"
    using conjunct2[OF print_tree_levels[of depth ?tree None 0]] unfolding p fst_conv snd_conv .
  then obtain n where
    n: "n \<le> length (children_of ?tree None)"
    "filter (\<lambda>e. fst e \<le> 0) printed = map (Pair 0) (take n (children_of ?tree None))"
    "ok \<longrightarrow> n = length (children_of ?tree None)"
    by (elim exE conjE)
  from n(2) have "map snd (filter (\<lambda>e. fst e = 0) printed) = take n (children_of ?tree None)"
    by (simp add: comp_def)
  with n have roots: "\<exists>n\<le>length (children_of ?tree None).
         map snd (filter (\<lambda>e. fst e = 0) printed) = take n (children_of ?tree None)
         \<and> (ok \<longrightarrow> n = length (children_of ?tree None))"
    by blast
  have returns: "ok" if "\<exists>rank. (\<forall>k s. s \<in> set (children_of ?tree k)
                     \<longrightarrow> rank (Some (span_id (ctx s))) < rank k) \<and> rank None \<le> depth"
  proof -
    from that obtain rank where r: "\<forall>k s. s \<in> set (children_of ?tree k)
                     \<longrightarrow> rank (Some (span_id (ctx s))) < rank k" "rank None \<le> depth"
      by blast
    from print_tree_returns[of ?tree rank None depth 0, OF r] show ?thesis by (simp add: p)
  qed
  have steps: "\<forall>j. Suc j < length printed \<longrightarrow> fst (printed ! Suc j) \<le> Suc (fst (printed ! j))"
  proof (intro allI impI)
    fix j assume "Suc j < length printed"
    moreover have "printed_steps printed"
      using print_tree_steps[of depth ?tree None 0] by (simp add: p)
    ultimately show "fst (printed ! Suc j) \<le> Suc (fst (printed ! j))" by (rule steps_nth[rotated])
  qed
  have blocks: "\<forall>j<length printed.
          map snd (filter (\<lambda>x. fst x = Suc (fst (printed ! j)))
                    (takeWhile (\<lambda>x. fst (printed ! j) < fst x) (drop (Suc j) printed)))
            = children_of ?tree (Some (span_id (ctx (snd (printed ! j)))))
          \<and> (\<forall>c\<in>set (children_of ?tree (Some (span_id (ctx (snd (printed ! j)))))).
                \<exists>i. j < i \<and> i < length printed \<and> printed ! i = (Suc (fst (printed ! j)), c))"
    if ok
  proof (intro allI impI conjI ballI)
    fix j assume j: "j < length printed"
    from that have "printed_blocks ?tree printed"
      using print_tree_blocks[of depth ?tree None 0] by (simp add: p)
    then show blk: "map snd (filter (\<lambda>x. fst x = Suc (fst (printed ! j)))
                    (takeWhile (\<lambda>x. fst (printed ! j) < fst x) (drop (Suc j) printed)))
            = children_of ?tree (Some (span_id (ctx (snd (printed ! j)))))"
      using j by (rule blocks_nth)
    fix c assume "c \<in> set (children_of ?tree (Some (span_id (ctx (snd (printed ! j))))))"
    with blk show "\<exists>i. j < i \<and> i < length printed \<and> printed ! i = (Suc (fst (printed ! j)), c)"
      by (rule child_printed_later)
  qed
  have fmt: "\<forall>level s. format_line level s = replicate (2 * level) CHR '' '' @ format_line 0 s
          \<and> take 2 (format_line 0 s) = ''- ''"
    by (intro allI) (rule format_line_indent)
  show ?thesis
    apply (rule exI[of _ printed])
    apply (rule exI[of _ ok])
    apply (intro conjI)
    subgoal by (rule ex)
    subgoal by (rule filing)
    subgoal by (rule wf)
    subgoal by (rule order)
    subgoal by (rule impI) (rule strong)
    subgoal by (rule roots)
    subgoal by (rule fmt)
    subgoal by (rule impI) (rule returns)
    subgoal by (rule steps)
    subgoal by (rule impI) (rule blocks)
    done
qed

text \<open>
  Claim C7: for every batch given to an exporter, new or after any earlier batches,
  \<^verbatim>\<open>export\<close> appends each span of the batch, in order, to the list under its parent's span
  id (under \<^verbatim>\<open>None\<close> when it has no parent) and prints the tree from the \<^verbatim>\<open>None\<close> key:
  every printed entry is a root at level 0 or comes after an entry one level higher that
  carries its parent's span id, so a span is printed before its children (when span ids
  are unique, before every printing of each child); the entries at level 0 are the spans
  under \<^verbatim>\<open>None\<close>, in order, all of them when the call returns; a line is indented by two
  spaces per level, followed by \<^verbatim>\<open>"- "\<close>; and the call returns whenever the depth of the
  tree is within the recursion limit (a rank that decreases from each key to the span ids
  filed under it, at most \<open>depth\<close> at \<^verbatim>\<open>None\<close>).  Nothing of the tree is left out and
  nothing else is printed: from one entry to the next the level rises by at most one,
  and when the call returns, the entries one level below a printed entry, among those
  that follow it while the level stays deeper, are exactly the spans filed under its span
  id, in filing order; so every span filed under a printed span is printed, one level
  deeper and after it.
\<close>

theorem tree_console_export_files_and_prints:
  fixes depth :: nat and earlier :: "span list list" and batch :: "span list"
  defines "ex \<equiv> exporter_after depth earlier"
  shows "\<exists>printed ok.
     export depth ex batch
       = ((map (\<lambda>(level, s). format_line level s) printed, ok), foldl file_span ex batch)
   \<and> (\<forall>k. span_tree (foldl file_span ex batch) k =
          (if span_tree ex k = None \<and> filter (\<lambda>s. parent_id s = k) batch = [] then None
           else Some (children_of (span_tree ex) k @ filter (\<lambda>s. parent_id s = k) batch)))
   \<and> filed_by_parent (span_tree (foldl file_span ex batch))
   \<and> (\<forall>j<length printed.
         (fst (printed ! j) = 0 \<and> parent (snd (printed ! j)) = None)
         \<or> (\<exists>i<j. fst (printed ! j) = Suc (fst (printed ! i))
               \<and> parent_id (snd (printed ! j)) = Some (span_id (ctx (snd (printed ! i))))))
   \<and> ((\<forall>a\<in>set printed. \<forall>b\<in>set printed.
          span_id (ctx (snd a)) = span_id (ctx (snd b)) \<longrightarrow> snd a = snd b) \<longrightarrow>
       (\<forall>i<length printed. \<forall>j<length printed.
          parent_id (snd (printed ! j)) = Some (span_id (ctx (snd (printed ! i)))) \<longrightarrow>
          (\<exists>i'<j. snd (printed ! i') = snd (printed ! i))))
   \<and> (\<exists>n\<le>length (children_of (span_tree (foldl file_span ex batch)) None).
         map snd (filter (\<lambda>e. fst e = 0) printed)
           = take n (children_of (span_tree (foldl file_span ex batch)) None)
         \<and> (ok \<longrightarrow> n = length (children_of (span_tree (foldl file_span ex batch)) None)))
   \<and> (\<forall>level s. format_line level s = replicate (2 * level) CHR '' '' @ format_line 0 s
          \<and> take 2 (format_line 0 s) = ''- '')
   \<and> ((\<exists>rank. (\<forall>k s. s \<in> set (children_of (span_tree (foldl file_span ex batch)) k)
                     \<longrightarrow> rank (Some (span_id (ctx s))) < rank k)
               \<and> rank None \<le> depth) \<longrightarrow> ok)
   \<and> (\<forall>j. Suc j < length printed \<longrightarrow> fst (printed ! Suc j) \<le> Suc (fst (printed ! j)))
   \<and> (ok \<longrightarrow>
       (\<forall>j<length printed.
          map snd (filter (\<lambda>x. fst x = Suc (fst (printed ! j)))
                    (takeWhile (\<lambda>x. fst (printed ! j) < fst x) (drop (Suc j) printed)))
            = children_of (span_tree (foldl file_span ex batch))
                (Some (span_id (ctx (snd (printed ! j)))))
          \<and> (\<forall>c\<in>set (children_of (span_tree (foldl file_span ex batch))
                         (Some (span_id (ctx (snd (printed ! j)))))).
                \<exists>i. j < i \<and> i < length printed \<and> printed ! i = (Suc (fst (printed ! j)), c))))"
  unfolding ex_def using filed_by_parent_after by (rule export_files_and_prints)

theorem tree_console_export_files_and_prints_witness:
  "fst (export 3 tree_console_span_exporter_init [grandchild_span]) = ([], True)
   \<and> fst (export 3 (exporter_after 3 [[grandchild_span], [child_span]]) [root_span, other_span])
       = ([''- root '' @ CHR 0x09 # ''trace_id: 7 span_id: 1'',
           ''  - child '' @ CHR 0x09 # ''trace_id: 7 span_id: 2'',
           ''    - grandchild '' @ CHR 0x09 # ''trace_id: 7 span_id: 5'',
           ''- other '' @ CHR 0x09 # ''trace_id: 8 span_id: 3''], True)
   \<and> fst (export 2 (exporter_after 2 [[grandchild_span], [child_span]]) [root_span, other_span])
       = ([''- root '' @ CHR 0x09 # ''trace_id: 7 span_id: 1'',
           ''  - child '' @ CHR 0x09 # ''trace_id: 7 span_id: 2''], False)
   \<and> children_of (span_tree (snd (export 3 (exporter_after 3 [[grandchild_span], [child_span]])
         [root_span, other_span]))) None = [root_span, other_span]
   \<and> children_of (span_tree (snd (export 3 (exporter_after 3 [[grandchild_span], [child_span]])
         [root_span, other_span]))) (Some 1) = [child_span]
   \<and> children_of (span_tree (snd (export 3 (exporter_after 3 [[grandchild_span], [child_span]])
         [root_span, other_span]))) (Some 2) = [grandchild_span]"
  using tree_console_export_files_and_prints[of 3 "[[grandchild_span], [child_span]]"
      "[root_span, other_span]"]
  by (simp add: exporter_after_def export_def file_span_def parent_id_def
      tree_console_span_exporter_init_def root_span_def child_span_def other_span_def
      grandchild_span_def format_line_def numeral_3_eq_3 numeral_2_eq_2 Let_def children_of_def)

section \<open>Properties of the process-wide tracer\<close>

lemma get_tracer_sets_instance:
  "get_tracer nm g = (t, g') \<Longrightarrow> tracer_instance g' = Some t"
  by (auto simp: get_tracer_def Let_def split: option.splits)

lemma get_tracer_again:
  "tracer_instance g = Some t \<Longrightarrow> get_tracer nm g = (t, g)"
  by (simp add: get_tracer_def)

lemma get_tracers_again:
  "tracer_instance g = Some t \<Longrightarrow> get_tracers nms g = (replicate (length nms) t, g)"
  by (induction nms) (simp_all add: get_tracer_again)

text \<open>
  Claim C8: \<^verbatim>\<open>get_tracer\<close> is idempotent.  Whatever the globals, a call followed by a
  call with any name returns the tracer of the first call and changes nothing.  From the
  module as imported, every call of a sequence returns the tracer made by the first call
  (named after the first name), and after the whole sequence exactly one provider has been
  constructed, with its three span processors, and registered once.
\<close>

theorem get_tracer_idempotent:
  "get_tracer nm2 (snd (get_tracer nm1 g)) = (fst (get_tracer nm1 g), snd (get_tracer nm1 g))
   \<and> get_tracers (nm # nms) tracer_globals_init
       = (replicate (Suc (length nms)) \<lparr>tracer_name = nm, provider = 0\<rparr>,
          \<lparr>tracer_instance = Some \<lparr>tracer_name = nm, provider = 0\<rparr>,
           providers = [\<lparr>service_name = ''promptflow'',
                         span_processors = [BatchSpanProcessor MdcExporter,
                                            SimpleSpanProcessor TreeConsoleSpanExporter,
                                            SimpleSpanProcessor MemoryExporter]\<rparr>],
           registered = [0]\<rparr>)"
proof -
  obtain t g' where first: "get_tracer nm1 g = (t, g')"
    by (cases "get_tracer nm1 g")
  then have "tracer_instance g' = Some t" by (rule get_tracer_sets_instance)
  then have "get_tracer nm2 g' = (t, g')" by (rule get_tracer_again)
  with first have twice:
    "get_tracer nm2 (snd (get_tracer nm1 g)) = (fst (get_tracer nm1 g), snd (get_tracer nm1 g))"
    by simp
  let ?t = "\<lparr>tracer_name = nm, provider = 0\<rparr>"
  let ?g = "\<lparr>tracer_instance = Some ?t,
           providers = [\<lparr>service_name = ''promptflow'',
                         span_processors = [BatchSpanProcessor MdcExporter,
                                            SimpleSpanProcessor TreeConsoleSpanExporter,
                                            SimpleSpanProcessor MemoryExporter]\<rparr>],
           registered = [0]\<rparr>"
  have init: "get_tracer nm tracer_globals_init = (?t, ?g)"
    by (simp add: get_tracer_def tracer_globals_init_def Let_def)
  have "tracer_instance ?g = Some ?t" by simp
  then have "get_tracers nms ?g = (replicate (length nms) ?t, ?g)"
    by (rule get_tracers_again)
  with init have "get_tracers (nm # nms) tracer_globals_init
       = (replicate (Suc (length nms)) ?t, ?g)"
    by simp
  with twice show ?thesis by (rule conjI)
qed

section \<open>Properties of the seed question tool\<close>

text \<open>
  Claim C10: when \<^verbatim>\<open>context\<close> is \<^verbatim>\<open>None\<close> or empty, \<^verbatim>\<open>generate_seed_question\<close> returns the
  empty string and leaves the world untouched whatever \<^verbatim>\<open>llm_call\<close> is, so \<^verbatim>\<open>llm_call\<close>
  is not invoked; for every non-empty context the result is exactly that of \<^verbatim>\<open>llm_call\<close>
  on the given connection, model name, prompt, temperature and \<^verbatim>\<open>max_tokens\<close>.
\<close>

theorem generate_seed_question_result:
  "(context = None \<or> context = Some '''' \<longrightarrow>
      generate_seed_question llm_call connection model_name prompt context temperature
        max_tokens w = (Inr '''', w))
   \<and> (context \<noteq> None \<and> context \<noteq> Some '''' \<longrightarrow>
      generate_seed_question llm_call connection model_name prompt context temperature
        max_tokens w = llm_call connection model_name prompt temperature max_tokens w)"
  by (cases "context") (simp_all add: generate_seed_question_def)

theorem generate_seed_question_result_witness:
  "generate_seed_question counting_llm () ''gpt'' ''ask'' None 1 512 0 = (Inr '''', 0)
   \<and> generate_seed_question counting_llm () ''gpt'' ''ask'' (Some '''') 1 512 0 = (Inr '''', 0)
   \<and> generate_seed_question counting_llm () ''gpt'' ''ask'' (Some ''some text'') 1 512 0
       = (Inr ''gpt: ask'', 1)
   \<and> counting_llm () ''gpt'' ''ask'' 1 512 0 = (Inr ''gpt: ask'', 1)"
  using generate_seed_question_result[of None counting_llm "()" "''gpt''" "''ask''" 1 512 0]
    generate_seed_question_result[of "Some ''''" counting_llm "()" "''gpt''" "''ask''" 1 512 0]
    generate_seed_question_result[of "Some ''some text''" counting_llm "()" "''gpt''" "''ask''"
      1 512 0]
  by (simp add: counting_llm_def)

section \<open>Properties of the experiment controller\<close>

text \<open>
  Claim C2: for every experiment whose status is \<open>Queuing\<close> or \<open>InProgress\<close>, \<^verbatim>\<open>start\<close>
  fails with an \<^verbatim>\<open>InvalidStateError\<close> whose message, "Experiment <name> is <status>",
  contains the experiment's name and its current status, and the stored experiment is
  the same after the failed call.
\<close>

theorem start_refused_when_active:
  assumes "status e = Queuing \<or> status e = InProgress"
  shows "\<exists>msg. start e = (Inl (InvalidStateError msg), e)
           \<and> msg = ''Experiment '' @ exp_name e @ '' is '' @ status_name (status e)
           \<and> sublist (exp_name e) msg \<and> sublist (status_name (status e)) msg"
proof -
  let ?msg = "''Experiment '' @ exp_name e @ '' is '' @ status_name (status e)"
  have "start e = (Inl (InvalidStateError ?msg), e)"
    using assms by (auto simp: start_def)
  moreover have "sublist (exp_name e) ?msg"
    unfolding sublist_def by (intro exI[of _ "''Experiment ''"] exI[of _ "'' is '' @ status_name (status e)"]) simp
  moreover have "sublist (status_name (status e)) ?msg"
    unfolding sublist_def by (intro exI[of _ "''Experiment '' @ exp_name e @ '' is ''"] exI[of _ "[]"]) simp
  ultimately show ?thesis by blast
qed

theorem start_refused_when_active_witness:
  "(status busy_experiment = Queuing \<or> status busy_experiment = InProgress)
   \<and> start busy_experiment
        = (Inl (InvalidStateError ''Experiment exp1 is InProgress''), busy_experiment)
   \<and> sublist ''exp1'' ''Experiment exp1 is InProgress''
   \<and> sublist ''InProgress'' ''Experiment exp1 is InProgress''"
proof -
  have h: "status busy_experiment = Queuing \<or> status busy_experiment = InProgress"
    by (simp add: busy_experiment_def)
  have n: "exp_name busy_experiment = ''exp1''" "status busy_experiment = InProgress"
    by (simp_all add: busy_experiment_def)
  show ?thesis
    using h start_refused_when_active[OF h] unfolding n by auto
qed

lemma cancel_run_status:
  "run_status (cancel_run r) = (if run_terminal (run_status r) then run_status r else RunCanceled)"
  by (simp add: cancel_run_def)

lemma cancel_run_terminal: "run_terminal (run_status r) \<Longrightarrow> cancel_run r = r"
  by (simp add: cancel_run_def)

text \<open>
  Claim C3: \<^verbatim>\<open>stop\<close> on an experiment that is \<open>InProgress\<close> succeeds and leaves it
  \<open>Terminated\<close>, with every node run that was \<open>Running\<close> now \<open>Canceled\<close> and every terminal
  node run as it was (no run is added, dropped or renamed); on an experiment in a terminal
  status \<^verbatim>\<open>stop\<close> succeeds and changes nothing.
\<close>

theorem stop_terminates_or_no_op:
  "(status e = InProgress \<longrightarrow>
      (\<exists>e'. stop e = (Inr e', e') \<and> status e' = Terminated
         \<and> exp_name e' = exp_name e \<and> nodes e' = nodes e
         \<and> (\<forall>n. length (node_runs e' n) = length (node_runs e n)
               \<and> (\<forall>i<length (node_runs e n).
                     run_name (node_runs e' n ! i) = run_name (node_runs e n ! i)
                     \<and> (run_status (node_runs e n ! i) = RunRunning \<longrightarrow>
                          run_status (node_runs e' n ! i) = RunCanceled)
                     \<and> (run_terminal (run_status (node_runs e n ! i)) \<longrightarrow>
                          node_runs e' n ! i = node_runs e n ! i)))))
   \<and> (terminal_status (status e) \<longrightarrow> stop e = (Inr e, e))"
proof (intro conjI impI)
  assume ip: "status e = InProgress"
  let ?e' = "e\<lparr>status := Terminated, node_runs := (\<lambda>n. map cancel_run (node_runs e n))\<rparr>"
  have "stop e = (Inr ?e', ?e')" using ip by (simp add: stop_def Let_def)
  moreover have "\<forall>n. length (node_runs ?e' n) = length (node_runs e n)
               \<and> (\<forall>i<length (node_runs e n).
                     run_name (node_runs ?e' n ! i) = run_name (node_runs e n ! i)
                     \<and> (run_status (node_runs e n ! i) = RunRunning \<longrightarrow>
                          run_status (node_runs ?e' n ! i) = RunCanceled)
                     \<and> (run_terminal (run_status (node_runs e n ! i)) \<longrightarrow>
                          node_runs ?e' n ! i = node_runs e n ! i))"
    by (simp add: cancel_run_def)
  ultimately show "\<exists>e'. stop e = (Inr e', e') \<and> status e' = Terminated
         \<and> exp_name e' = exp_name e \<and> nodes e' = nodes e
         \<and> (\<forall>n. length (node_runs e' n) = length (node_runs e n)
               \<and> (\<forall>i<length (node_runs e n).
                     run_name (node_runs e' n ! i) = run_name (node_runs e n ! i)
                     \<and> (run_status (node_runs e n ! i) = RunRunning \<longrightarrow>
                          run_status (node_runs e' n ! i) = RunCanceled)
                     \<and> (run_terminal (run_status (node_runs e n ! i)) \<longrightarrow>
                          node_runs e' n ! i = node_runs e n ! i)))"
    by (intro exI[of _ ?e']) simp
next
  assume "terminal_status (status e)"
  then show "stop e = (Inr e, e)" by (cases "status e") (simp_all add: stop_def)
qed

theorem stop_terminates_or_no_op_witness:
  "status busy_experiment = InProgress
   \<and> fst (stop busy_experiment) = Inr (snd (stop busy_experiment))
   \<and> status (snd (stop busy_experiment)) = Terminated
   \<and> node_runs (snd (stop busy_experiment)) ''main''
       = [\<lparr>run_name = ''main_0'', run_status = RunCompleted\<rparr>,
          \<lparr>run_name = ''main_1'', run_status = RunCanceled\<rparr>]
   \<and> terminal_status (status (snd (stop busy_experiment)))
   \<and> stop (snd (stop busy_experiment))
       = (Inr (snd (stop busy_experiment)), snd (stop busy_experiment))"
proof -
  have h: "status busy_experiment = InProgress" by (simp add: busy_experiment_def)
  have st: "status (snd (stop busy_experiment)) = Terminated"
    by (simp add: stop_def busy_experiment_def Let_def)
  then have t: "terminal_status (status (snd (stop busy_experiment)))" by simp
  have runs: "node_runs (snd (stop busy_experiment)) ''main''
       = [\<lparr>run_name = ''main_0'', run_status = RunCompleted\<rparr>,
          \<lparr>run_name = ''main_1'', run_status = RunCanceled\<rparr>]"
    by (simp add: stop_def busy_experiment_def Let_def cancel_run_def)
  from stop_terminates_or_no_op[of busy_experiment] h
  have "fst (stop busy_experiment) = Inr (snd (stop busy_experiment))" by auto
  moreover from stop_terminates_or_no_op[of "snd (stop busy_experiment)"] t
  have "stop (snd (stop busy_experiment))
       = (Inr (snd (stop busy_experiment)), snd (stop busy_experiment))"
    by (elim conjE) (erule mp)
  ultimately show ?thesis using h st t runs by simp
qed

subsection \<open>History of node runs\<close>

lemma step_length:
  "step e ev = Some e' \<Longrightarrow>
     length (node_runs e' n) = length (node_runs e n) + (if is_dispatch n ev then 1 else 0)"
  by (cases ev) (auto simp: start_def stop_def Let_def split: if_splits)

lemma run_trace_length:
  "run_trace e evs = Some tr \<Longrightarrow>
     length (node_runs (last tr) n) = length (node_runs e n) + dispatched n evs"
proof (induction evs arbitrary: e tr)
  case Nil
  then show ?case by (auto simp: dispatched_def)
next
  case (Cons ev evs)
  from Cons.prems obtain e' tr' where s: "step e ev = Some e'" and r: "run_trace e' evs = Some tr'"
    and tr: "tr = e # tr'"
    by (auto split: option.splits)
  from r have "tr' \<noteq> []" by (cases evs) (auto split: option.splits)
  with tr have "last tr = last tr'" by simp
  with Cons.IH[OF r] step_length[OF s, of n] show ?case
    by (simp add: dispatched_def)
qed

lemma run_events_length:
  "run_events e evs = Some e' \<Longrightarrow>
     length (node_runs e' n) = length (node_runs e n) + dispatched n evs"
  by (auto simp: run_events_def run_trace_length split: option.splits)

text \<open>Runs that are terminal are kept by every event, at their place in the history.\<close>

lemma prefix_butlast_terminal:
  assumes "prefix xs ys" and "list_all (\<lambda>r. run_terminal (run_status r)) xs"
    and "ys \<noteq> []" and "\<not> run_terminal (run_status (last ys))"
  shows "prefix xs (butlast ys)"
proof -
  from assms(1) obtain zs where ys: "ys = xs @ zs" by (auto simp: prefix_def)
  have "zs \<noteq> []"
  proof
    assume "zs = []"
    with ys assms(3) have "last ys \<in> set xs" by simp
    with assms(2,4) show False by (simp add: list_all_iff)
  qed
  then have "butlast ys = xs @ butlast zs" by (simp add: ys butlast_append)
  then show ?thesis by simp
qed

lemma map_cancel_terminal:
  "list_all (\<lambda>r. run_terminal (run_status r)) xs \<Longrightarrow> map cancel_run xs = xs"
  by (induction xs) (simp_all add: cancel_run_def)

lemma step_keeps_terminal_prefix:
  assumes "step e ev = Some e'" and "prefix xs (node_runs e n)"
    and "list_all (\<lambda>r. run_terminal (run_status r)) xs"
  shows "prefix xs (node_runs e' n)"
proof (cases ev)
  case Stop
  from assms(2) have "prefix (map cancel_run xs) (map cancel_run (node_runs e n))"
    by (rule map_mono_prefix)
  then have "prefix xs (map cancel_run (node_runs e n))"
    using assms(3) by (simp add: map_cancel_terminal)
  with assms(1,2) Stop show ?thesis by (auto simp: stop_def Let_def split: if_splits)
next
  case (NodeReports m s)
  show ?thesis
  proof (cases "m = n")
    case True
    with assms(1) NodeReports have ne: "node_runs e n \<noteq> []"
      and nt: "\<not> run_terminal (run_status (last (node_runs e n)))"
      and e': "node_runs e' n = butlast (node_runs e n) @ [(last (node_runs e n))\<lparr>run_status := s\<rparr>]"
      by (auto split: if_splits)
    from assms(2,3) ne nt have "prefix xs (butlast (node_runs e n))"
      by (rule prefix_butlast_terminal)
    then show ?thesis by (simp add: e' prefix_prefix)
  next
    case False
    with assms(1,2) NodeReports show ?thesis by (auto split: if_splits)
  qed
next
  case (Dispatch m rn)
  with assms(1,2) show ?thesis by (auto split: if_splits simp: prefix_prefix)
qed (use assms(1,2) in \<open>auto simp: start_def split: if_splits\<close>)

lemma run_trace_keeps_terminal_prefix:
  "run_trace e evs = Some tr \<Longrightarrow> prefix xs (node_runs e n) \<Longrightarrow>
   list_all (\<lambda>r. run_terminal (run_status r)) xs \<Longrightarrow> prefix xs (node_runs (last tr) n)"
proof (induction evs arbitrary: e tr)
  case Nil
  then show ?case by auto
next
  case (Cons ev evs)
  from Cons.prems(1) obtain e' tr' where s: "step e ev = Some e'"
    and r: "run_trace e' evs = Some tr'" and tr: "tr = e # tr'"
    by (auto split: option.splits)
  from r have "tr' \<noteq> []" by (cases evs) (auto split: option.splits)
  with tr have l: "last tr = last tr'" by simp
  from s Cons.prems(2,3) have "prefix xs (node_runs e' n)" by (rule step_keeps_terminal_prefix)
  with r have "prefix xs (node_runs (last tr') n)" using Cons.prems(3) by (rule Cons.IH)
  with l show ?case by simp
qed

lemma settled_new: "settled (new_experiment nm ns)"
  by (simp add: settled_def new_experiment_def)

lemma list_all_butlast: "list_all P xs \<Longrightarrow> list_all P (butlast xs)"
  by (auto simp: list_all_iff dest: in_set_butlastD)

lemma list_all_snoc_last:
  "xs \<noteq> [] \<Longrightarrow> list_all P (butlast xs) \<Longrightarrow> P (last xs) \<Longrightarrow> list_all P xs"
  by (induction xs) (auto split: if_splits)

lemma cancel_all_terminal: "list_all (\<lambda>r. run_terminal (run_status r)) (map cancel_run xs)"
  by (induction xs) (simp_all add: cancel_run_def)

lemma settledI:
  assumes "\<And>n. node_runs e n \<noteq> [] \<Longrightarrow> n \<in> set (nodes e)"
    and "\<And>n. list_all (\<lambda>r. run_terminal (run_status r)) (butlast (node_runs e n))"
    and "\<And>n. status e \<noteq> InProgress \<Longrightarrow>
           list_all (\<lambda>r. run_terminal (run_status r)) (node_runs e n)"
  shows "settled e"
  using assms unfolding settled_def by blast

lemma settled_nodes: "settled e \<Longrightarrow> node_runs e n \<noteq> [] \<Longrightarrow> n \<in> set (nodes e)"
  unfolding settled_def by blast

lemma settled_butlast:
  "settled e \<Longrightarrow> list_all (\<lambda>r. run_terminal (run_status r)) (butlast (node_runs e n))"
  unfolding settled_def by blast

lemma settled_all:
  "settled e \<Longrightarrow> status e \<noteq> InProgress \<Longrightarrow>
     list_all (\<lambda>r. run_terminal (run_status r)) (node_runs e n)"
  unfolding settled_def by blast

lemma settled_status:
  assumes "settled e" and "nodes e' = nodes e" and "node_runs e' = node_runs e"
    and "status e' = InProgress \<or> status e \<noteq> InProgress"
  shows "settled e'"
proof (rule settledI)
  fix n
  show "node_runs e' n \<noteq> [] \<Longrightarrow> n \<in> set (nodes e')"
    using assms(1-3) settled_nodes[of e n] by simp
  show "list_all (\<lambda>r. run_terminal (run_status r)) (butlast (node_runs e' n))"
    using assms(1,3) settled_butlast[of e n] by simp
  show "list_all (\<lambda>r. run_terminal (run_status r)) (node_runs e' n)"
    if "status e' \<noteq> InProgress"
    using that assms(1,3,4) settled_all[of e n] by simp
qed

lemma step_settled:
  assumes "step e ev = Some e'" and "settled e"
  shows "settled e'"
proof (cases ev)
  case Start
  with assms(1) have "e' = e\<lparr>status := Queuing\<rparr>" and "status e \<noteq> InProgress"
    by (auto simp: start_def split: if_splits)
  with assms(2) show ?thesis by (rule_tac settled_status[of e]) simp_all
next
  case Stop
  show ?thesis
  proof (cases "status e = Queuing \<or> status e = InProgress")
    case True
    with assms(1) Stop have e': "e' = e\<lparr>status := Terminated,
        node_runs := (\<lambda>n. map cancel_run (node_runs e n))\<rparr>"
      by (simp add: stop_def Let_def)
    show ?thesis
    proof (rule settledI)
      fix n
      show "node_runs e' n \<noteq> [] \<Longrightarrow> n \<in> set (nodes e')"
        using settled_nodes[OF assms(2), of n] by (simp add: e')
      show "list_all (\<lambda>r. run_terminal (run_status r)) (butlast (node_runs e' n))"
        by (simp add: e' cancel_all_terminal list_all_butlast)
      show "list_all (\<lambda>r. run_terminal (run_status r)) (node_runs e' n)"
        by (simp add: e' cancel_all_terminal)
    qed
  next
    case False
    with assms Stop show ?thesis by (simp add: stop_def)
  qed
next
  case SchedulerBegins
  with assms(1) have e': "e' = e\<lparr>status := InProgress\<rparr>" by (auto split: if_splits)
  with assms(2) show ?thesis by (rule_tac settled_status[of e]) simp_all
next
  case (Dispatch m rn)
  with assms have ip: "status e = InProgress" and m: "m \<in> set (nodes e)"
    and lt: "node_runs e m = [] \<or> run_terminal (run_status (last (node_runs e m)))"
    and e': "e' = e\<lparr>node_runs := (node_runs e)
                    (m := node_runs e m @ [\<lparr>run_name = rn, run_status = RunQueued\<rparr>])\<rparr>"
    by (auto split: if_splits)
  have old: "list_all (\<lambda>r. run_terminal (run_status r)) (node_runs e m)"
  proof (cases "node_runs e m = []")
    case True
    then show ?thesis by simp
  next
    case False
    with lt have "run_terminal (run_status (last (node_runs e m)))" by simp
    with False settled_butlast[OF assms(2), of m] show ?thesis
      by (rule list_all_snoc_last)
  qed
  show ?thesis
  proof (rule settledI)
    fix n
    show "node_runs e' n \<noteq> [] \<Longrightarrow> n \<in> set (nodes e')"
      using settled_nodes[OF assms(2), of n] m by (cases "n = m") (simp_all add: e')
    show "list_all (\<lambda>r. run_terminal (run_status r)) (butlast (node_runs e' n))"
      using settled_butlast[OF assms(2), of n] old by (cases "n = m") (simp_all add: e')
    show "list_all (\<lambda>r. run_terminal (run_status r)) (node_runs e' n)"
      if "status e' \<noteq> InProgress"
      using that ip by (simp add: e')
  qed
next
  case (NodeReports m s)
  with assms have ip: "status e = InProgress" and ne: "node_runs e m \<noteq> []"
    and e': "e' = e\<lparr>node_runs := (node_runs e)
                    (m := butlast (node_runs e m) @ [(last (node_runs e m))\<lparr>run_status := s\<rparr>])\<rparr>"
    by (auto split: if_splits)
  show ?thesis
  proof (rule settledI)
    fix n
    show "node_runs e' n \<noteq> [] \<Longrightarrow> n \<in> set (nodes e')"
      using settled_nodes[OF assms(2), of n] ne by (cases "n = m") (simp_all add: e')
    show "list_all (\<lambda>r. run_terminal (run_status r)) (butlast (node_runs e' n))"
      using settled_butlast[OF assms(2), of n] by (cases "n = m") (simp_all add: e')
    show "list_all (\<lambda>r. run_terminal (run_status r)) (node_runs e' n)"
      if "status e' \<noteq> InProgress"
      using that ip by (simp add: e')
  qed
next
  case AllNodesTerminal
  with assms have ip: "status e = InProgress" and an: "all_nodes_terminal e"
    and e': "e' = e\<lparr>status := (if some_node_failed e then Failed else Completed)\<rparr>"
    by (auto split: if_splits)
  have all: "list_all (\<lambda>r. run_terminal (run_status r)) (node_runs e n)" for n
  proof (cases "node_runs e n = []")
    case True
    then show ?thesis by simp
  next
    case False
    with assms(2) have n: "n \<in> set (nodes e)" by (rule settled_nodes)
    with an have "run_terminal (run_status (last (node_runs e n)))"
      by (simp add: all_nodes_terminal_def list_all_iff)
    with False settled_butlast[OF assms(2), of n] show ?thesis
      by (rule list_all_snoc_last)
  qed
  show ?thesis
  proof (rule settledI)
    fix n
    show "node_runs e' n \<noteq> [] \<Longrightarrow> n \<in> set (nodes e')"
      using settled_nodes[OF assms(2), of n] by (simp add: e')
    show "list_all (\<lambda>r. run_terminal (run_status r)) (butlast (node_runs e' n))"
      using settled_butlast[OF assms(2), of n] by (simp add: e')
    show "list_all (\<lambda>r. run_terminal (run_status r)) (node_runs e' n)"
      using all[of n] by (simp add: e')
  qed
next
  case Finish
  with assms(1) have "e' = e\<lparr>status := Terminated\<rparr>" and "status e \<noteq> InProgress"
    by (auto split: if_splits)
  with assms(2) show ?thesis by (rule_tac settled_status[of e]) simp_all
qed

lemma run_trace_settled:
  "run_trace e evs = Some tr \<Longrightarrow> settled e \<Longrightarrow> settled (last tr)"
proof (induction evs arbitrary: e tr)
  case Nil
  then show ?case by auto
next
  case (Cons ev evs)
  from Cons.prems(1) obtain e' tr' where s: "step e ev = Some e'"
    and r: "run_trace e' evs = Some tr'" and tr: "tr = e # tr'"
    by (auto split: option.splits)
  from r have "tr' \<noteq> []" by (cases evs) (auto split: option.splits)
  with tr have l: "last tr = last tr'" by simp
  from s Cons.prems(2) have "settled e'" by (rule step_settled)
  with r have "settled (last tr')" by (rule Cons.IH)
  with l show ?case by simp
qed

text \<open>
  Claim C6: a fresh experiment has no node run; after any sequence of events from the
  fresh experiment, the history of every node is as long as the number of times the node
  was dispatched; and when \<^verbatim>\<open>start\<close> is then accepted, whatever follows only appends to
  each history: the runs there at the start stay, unchanged, as a prefix, and the history
  grows by the number of later dispatches.
\<close>

theorem node_runs_history:
  assumes "run_events (new_experiment nm ns) earlier = Some e"
  shows "node_runs (new_experiment nm ns) n = []
       \<and> length (node_runs e n) = dispatched n earlier
       \<and> (\<forall>later e'. run_events e (Start # later) = Some e' \<longrightarrow>
             prefix (node_runs e n) (node_runs e' n)
             \<and> length (node_runs e' n) = length (node_runs e n) + dispatched n later)"
proof (intro conjI allI impI)
  show "node_runs (new_experiment nm ns) n = []" by (simp add: new_experiment_def)
next
  from run_events_length[OF assms, of n]
  show "length (node_runs e n) = dispatched n earlier" by (simp add: new_experiment_def)
next
  fix later e'
  assume r: "run_events e (Start # later) = Some e'"
  from assms obtain tr where tr: "run_trace (new_experiment nm ns) earlier = Some tr" "e = last tr"
    by (auto simp: run_events_def split: option.splits)
  from run_trace_settled[OF tr(1) settled_new] tr(2) have se: "settled e" by simp
  from r obtain tr' where tr': "run_trace e (Start # later) = Some tr'" "e' = last tr'"
    by (auto simp: run_events_def split: option.splits)
  then have "step e Start \<noteq> None" by (auto split: option.splits)
  then have "status e \<noteq> InProgress" by (auto simp: start_def split: if_splits)
  with se have all_terminal: "list_all (\<lambda>r. run_terminal (run_status r)) (node_runs e n)"
    by (simp add: settled_def)
  have "prefix (node_runs e n) (node_runs e n)" by simp
  with tr'(1) have "prefix (node_runs e n) (node_runs (last tr') n)"
    using all_terminal by (rule run_trace_keeps_terminal_prefix)
  then show "prefix (node_runs e n) (node_runs e' n)" by (simp add: tr'(2))
next
  fix later e'
  assume r: "run_events e (Start # later) = Some e'"
  from run_events_length[OF r, of n]
  show "length (node_runs e' n) = length (node_runs e n) + dispatched n later"
    by (simp add: dispatched_def)
qed

theorem node_runs_history_witness:
  "run_events (new_experiment ''exp1'' [''main'', ''eval'']) first_run = Some finished_experiment
   \<and> node_runs (new_experiment ''exp1'' [''main'', ''eval'']) ''main'' = []
   \<and> dispatched ''main'' first_run = 1
   \<and> node_runs finished_experiment ''main''
        = [\<lparr>run_name = ''main_0'', run_status = RunCompleted\<rparr>]
   \<and> map_option (\<lambda>e. node_runs e ''main'')
        (run_events finished_experiment (Start # second_run))
        = Some [\<lparr>run_name = ''main_0'', run_status = RunCompleted\<rparr>,
                \<lparr>run_name = ''main_1'', run_status = RunCanceled\<rparr>]
   \<and> dispatched ''main'' second_run = 1"
proof -
  have h: "run_events (new_experiment ''exp1'' [''main'', ''eval'']) first_run
      = Some finished_experiment"
    by (simp add: run_events_def first_run_def new_experiment_def start_def
        all_nodes_terminal_def some_node_failed_def finished_experiment_def)
  have later: "map_option (\<lambda>e. node_runs e ''main'')
        (run_events finished_experiment (Start # second_run))
        = Some [\<lparr>run_name = ''main_0'', run_status = RunCompleted\<rparr>,
                \<lparr>run_name = ''main_1'', run_status = RunCanceled\<rparr>]"
    by (simp add: run_events_def second_run_def finished_experiment_def start_def stop_def
        Let_def cancel_run_def)
  show ?thesis
    using h later node_runs_history[OF h, of "''main''"]
    by (simp add: dispatched_def first_run_def second_run_def finished_experiment_def)
qed

section \<open>Properties of the call recorder\<close>








end
